theory Spec2Isabelle
  imports Main "HOL-Library.Multiset"
begin

section \<open>Data model (core/types.ts)\<close>

text \<open>
  The engine of the card game lives in \<^verbatim>\<open>core/game.ts\<close>; its types are in
  \<^verbatim>\<open>core/types.ts\<close>. Enums become datatypes whose constructors keep the declaration
  order, interfaces become records. JavaScript numbers are modelled as mathematical integers
  (\<^typ>\<open>int\<close>): every number the engine computes from integer inputs is an integer, and
  is exact as long as it stays below \<open>2 ^ 53\<close>. Strings are byte lists; the glyphs of the
  source are written as their UTF-8 bytes. The names of the source are kept, but for the
  fields \<^verbatim>\<open>id\<close> of a card and of a player, which are \<open>card_id\<close> and \<open>player_id\<close>.
\<close>

datatype Difficulty = Easy | Medium | Hard

datatype Suit = Hearts | Diamonds | Clubs | Spades

datatype Rank = Two | Three | Four | Five | Six | Seven | Eight | Nine | Ten
  | Jack | Queen | King | Ace

datatype GameMode = VsBot | LocalMultiplayer | Tournament

record Card =
  card_id :: string
  suit :: Suit
  rank :: Rank

record Player =
  player_id :: string
  name :: string
  avatar :: string
  isBot :: bool
  hand :: "Card list"

record TournamentConfig =
  totalRounds :: int
  currentRound :: int
  scores :: "(string \<times> int) list"

text \<open>
  \<^verbatim>\<open>GameState\<close> refers to itself through \<^verbatim>\<open>previousState: GameState | null\<close>. The fields
  other than \<^verbatim>\<open>previousState\<close> form the record \<open>GameFields\<close>; a state is these fields
  together with the optional previous state.
\<close>

record GameFields =
  deck :: "Card list"
  discardPile :: "Card list"
  players :: "Player list"
  currentPlayerIndex :: int
  direction :: int
  winnerId :: "string option"
  pendingPickup :: int
  lastAction :: string
  difficulty :: Difficulty
  gameMode :: GameMode
  pendingSuitChoice :: bool
  chosenSuit :: "Suit option"
  peekingCard :: "Card option"
  peekingPlayerId :: "string option"
  pendingSwap :: bool
  tournamentConfig :: "TournamentConfig option"
  showPassScreen :: bool
  nextPlayerName :: string
  canUndo :: bool

datatype GameState = GameState (fields: GameFields) (previousState: "GameState option")

text \<open>
  What a call can do other than return: a property read on \<^verbatim>\<open>undefined\<close> throws a
  \<^verbatim>\<open>TypeError\<close>; \<^verbatim>\<open>createNewGame\<close> throws \<^verbatim>\<open>Error("Deck error")\<close>; and with an empty
  player list \<^verbatim>\<open>advanceTurn\<close> computes \<^verbatim>\<open>x % 0\<close>, which is \<^verbatim>\<open>NaN\<close> and not an integer
  (reported here as \<open>NotANumber\<close>, since the index is an \<^typ>\<open>int\<close>).
\<close>

datatype error = TypeError | DeckError | NotANumber

section \<open>Strings of the enums\<close>

definition suit_str :: "Suit \<Rightarrow> string" where
  "suit_str s = (case s of
      Hearts \<Rightarrow> [CHR 0xE2, CHR 0x99, CHR 0xA5]
    | Diamonds \<Rightarrow> [CHR 0xE2, CHR 0x99, CHR 0xA6]
    | Clubs \<Rightarrow> [CHR 0xE2, CHR 0x99, CHR 0xA3]
    | Spades \<Rightarrow> [CHR 0xE2, CHR 0x99, CHR 0xA0])"

definition rank_str :: "Rank \<Rightarrow> string" where
  "rank_str r = (case r of
      Two \<Rightarrow> ''2'' | Three \<Rightarrow> ''3'' | Four \<Rightarrow> ''4'' | Five \<Rightarrow> ''5'' | Six \<Rightarrow> ''6''
    | Seven \<Rightarrow> ''7'' | Eight \<Rightarrow> ''8'' | Nine \<Rightarrow> ''9'' | Ten \<Rightarrow> ''10''
    | Jack \<Rightarrow> ''J'' | Queen \<Rightarrow> ''Q'' | King \<Rightarrow> ''K'' | Ace \<Rightarrow> ''A'')"

definition digit_str :: "nat \<Rightarrow> string" where
  "digit_str d = [''0123456789'' ! d]"

fun show_nat :: "nat \<Rightarrow> string" where
  "show_nat n = (if n < 10 then digit_str n else show_nat (n div 10) @ digit_str (n mod 10))"

declare show_nat.simps [simp del]

text \<open>The glyphs used in the texts of \<^verbatim>\<open>lastAction\<close> and as the human avatar.\<close>

definition glyph_party :: string where "glyph_party = [CHR 0xF0, CHR 0x9F, CHR 0x8E, CHR 0x89]"
definition glyph_boom :: string where "glyph_boom = [CHR 0xF0, CHR 0x9F, CHR 0x92, CHR 0xA5]"
definition glyph_fire :: string where "glyph_fire = [CHR 0xF0, CHR 0x9F, CHR 0x94, CHR 0xA5]"
definition glyph_no_entry :: string where "glyph_no_entry = [CHR 0xF0, CHR 0x9F, CHR 0x9A, CHR 0xAB]"
definition glyph_return :: string where
  "glyph_return = [CHR 0xE2, CHR 0x86, CHR 0xA9, CHR 0xEF, CHR 0xB8, CHR 0x8F]"
definition glyph_crown :: string where "glyph_crown = [CHR 0xF0, CHR 0x9F, CHR 0x91, CHR 0x91]"
definition glyph_prince :: string where "glyph_prince = [CHR 0xF0, CHR 0x9F, CHR 0xA4, CHR 0xB4]"
definition glyph_eye :: string where
  "glyph_eye = [CHR 0xF0, CHR 0x9F, CHR 0x91, CHR 0x81, CHR 0xEF, CHR 0xB8, CHR 0x8F]"
definition glyph_sweat :: string where "glyph_sweat = [CHR 0xF0, CHR 0x9F, CHR 0x98, CHR 0x85]"
definition HUMAN_AVATAR :: string where "HUMAN_AVATAR = [CHR 0xF0, CHR 0x9F, CHR 0x98, CHR 0x8E]"

section \<open>Helper functions\<close>

definition all_suits :: "Suit list" where
  "all_suits = [Hearts, Diamonds, Clubs, Spades]"

definition all_ranks :: "Rank list" where
  "all_ranks = [Two, Three, Four, Five, Six, Seven, Eight, Nine, Ten, Jack, Queen, King, Ace]"

definition mkCard :: "Suit \<Rightarrow> Rank \<Rightarrow> Card" where
  "mkCard s r = \<lparr>card_id = suit_str s @ ''-'' @ rank_str r, suit = s, rank = r\<rparr>"

definition createDeck :: "Card list" where
  "createDeck = concat (map (\<lambda>s. map (\<lambda>r. mkCard s r) all_ranks) all_suits)"

text \<open>
  Randomness. A call takes the random source \<open>rng\<close> as an argument: \<open>rng k\<close> stands for the
  outcome of the \<open>k\<close>-th call of \<^verbatim>\<open>Math.random\<close> (counted from 0), as a natural number;
  \<^verbatim>\<open>Math.floor(Math.random() * n)\<close> is \<open>rng k mod n\<close>, so that every value below \<open>n\<close> can
  come out and no other.
\<close>

type_synonym rng = "nat \<Rightarrow> nat"

text \<open>
  \<^verbatim>\<open>shuffleDeck\<close>: the loop runs \<open>i\<close> from \<open>length - 1\<close> down to 1 and exchanges the entries
  \<open>i\<close> and \<open>j\<close>; \<open>k\<close> counts the calls of the random source.
\<close>

fun shuffleLoop :: "rng \<Rightarrow> nat \<Rightarrow> nat \<Rightarrow> 'a list \<Rightarrow> 'a list" where
  "shuffleLoop rng k 0 newDeck = newDeck"
| "shuffleLoop rng k (Suc i') newDeck =
     (let i = Suc i'; j = rng k mod (i + 1)
      in shuffleLoop rng (k + 1) i' (newDeck[i := newDeck ! j, j := newDeck ! i]))"

definition shuffleDeck :: "rng \<Rightarrow> nat \<Rightarrow> 'a list \<Rightarrow> 'a list" where
  "shuffleDeck rng k cards = shuffleLoop rng k (length cards - 1) cards"

definition getSuitValue :: "Suit \<Rightarrow> int" where
  "getSuitValue s = (case s of Hearts \<Rightarrow> 1 | Diamonds \<Rightarrow> 2 | Clubs \<Rightarrow> 3 | Spades \<Rightarrow> 4)"

definition getRankValue :: "Rank \<Rightarrow> int" where
  "getRankValue r = (case r of
      Two \<Rightarrow> 2 | Three \<Rightarrow> 3 | Four \<Rightarrow> 4 | Five \<Rightarrow> 5 | Six \<Rightarrow> 6 | Seven \<Rightarrow> 7 | Eight \<Rightarrow> 8
    | Nine \<Rightarrow> 9 | Ten \<Rightarrow> 10 | Jack \<Rightarrow> 11 | Queen \<Rightarrow> 12 | King \<Rightarrow> 13 | Ace \<Rightarrow> 14)"

text \<open>
  \<^verbatim>\<open>Array.prototype.sort\<close> with a comparator is a stable sort; for a comparator that is a
  consistent ordering its result is the one of the stable insertion sort below (an element
  goes before the first one it does not compare greater than).
\<close>

fun insertBy :: "('a \<Rightarrow> 'a \<Rightarrow> int) \<Rightarrow> 'a \<Rightarrow> 'a list \<Rightarrow> 'a list" where
  "insertBy cmp x [] = [x]"
| "insertBy cmp x (y # ys) = (if cmp x y \<le> 0 then x # y # ys else y # insertBy cmp x ys)"

definition sortBy :: "('a \<Rightarrow> 'a \<Rightarrow> int) \<Rightarrow> 'a list \<Rightarrow> 'a list" where
  "sortBy cmp xs = foldr (insertBy cmp) xs []"

definition compareCards :: "Card \<Rightarrow> Card \<Rightarrow> int" where
  "compareCards a b =
     (if suit a \<noteq> suit b then getSuitValue (suit a) - getSuitValue (suit b)
      else getRankValue (rank a) - getRankValue (rank b))"

definition sortHand :: "Card list \<Rightarrow> Card list" where
  "sortHand cards = sortBy compareCards cards"

definition isBlackJack :: "Card \<Rightarrow> bool" where
  "isBlackJack c = (rank c = Jack \<and> (suit c = Spades \<or> suit c = Clubs))"

definition isTwo :: "Card \<Rightarrow> bool" where
  "isTwo c = (rank c = Two)"

section \<open>Move legality\<close>

definition isValidMove :: "Card \<Rightarrow> Card \<Rightarrow> int \<Rightarrow> bool" where
  "isValidMove c topDiscard pending =
     (if pending > 0 then rank c = rank topDiscard
      else suit c = suit topDiscard \<or> rank c = rank topDiscard)"

section \<open>Reading JavaScript values\<close>

text \<open>\<^verbatim>\<open>if (state.winnerId)\<close> tests truthiness: \<^verbatim>\<open>null\<close> and the empty string are falsy.\<close>

definition truthy :: "string option \<Rightarrow> bool" where
  "truthy w = (case w of None \<Rightarrow> False | Some v \<Rightarrow> v \<noteq> [])"

text \<open>\<^verbatim>\<open>state.players[i]\<close> is \<^verbatim>\<open>undefined\<close> (here \<open>None\<close>) unless \<open>0 \<le> i < length\<close>.\<close>

definition playerAt :: "Player list \<Rightarrow> int \<Rightarrow> Player option" where
  "playerAt ps i = (if 0 \<le> i \<and> i < int (length ps) then Some (ps ! nat i) else None)"

text \<open>\<^verbatim>\<open>findIndex\<close> returns the first index whose element satisfies the test, \<open>None\<close> for -1.\<close>

fun findIndex :: "('a \<Rightarrow> bool) \<Rightarrow> 'a list \<Rightarrow> nat option" where
  "findIndex P [] = None"
| "findIndex P (x # xs) = (if P x then Some 0 else map_option Suc (findIndex P xs))"

text \<open>\<^verbatim>\<open>xs.splice(i, 1)\<close> removes the entry at \<open>i\<close>.\<close>

definition removeAt :: "nat \<Rightarrow> 'a list \<Rightarrow> 'a list" where
  "removeAt i xs = take i xs @ drop (Suc i) xs"

text \<open>JavaScript's \<^verbatim>\<open>%\<close> on integers, for a divisor other than 0: the sign of the dividend.\<close>

definition js_rem :: "int \<Rightarrow> int \<Rightarrow> int" where
  "js_rem a n = sgn a * (\<bar>a\<bar> mod \<bar>n\<bar>)"

section \<open>Turn management\<close>

definition advanceTurn :: "GameFields \<Rightarrow> int \<Rightarrow> error + GameFields" where
  "advanceTurn g steps =
     (let numPlayers = int (length (players g)) in
      if numPlayers = 0 then Inl NotANumber
      else
        let nextIndex = currentPlayerIndex g + direction g * steps;
            nextIndex' = js_rem (js_rem nextIndex numPlayers + numPlayers) numPlayers
        in Inr (g\<lparr>currentPlayerIndex := nextIndex'\<rparr>))"

text \<open>A result of \<open>advanceTurn\<close> on the fields, put back beside the previous state.\<close>

definition withPrevious :: "GameState option \<Rightarrow> error + GameFields \<Rightarrow> error + GameState" where
  "withPrevious prev r = (case r of Inl e \<Rightarrow> Inl e | Inr g \<Rightarrow> Inr (GameState g prev))"

section \<open>Game actions\<close>

text \<open>
  \<^verbatim>\<open>createNewGame\<close>. The arguments are given in full (the source has defaults for them,
  and \<^verbatim>\<open>playerNames\<close> may be missing). The bot avatars are \<^verbatim>\<open>BOT_AVATARS\<close> sorted with a
  comparator that answers at random; the arrangement that comes out is the argument
  \<open>shuffledAvatars\<close> (it holds the 8 avatars, so that the reads at indices below 4 are in
  range). A name that is missing or empty gives way to the default name.
\<close>

definition clampPlayers :: "int \<Rightarrow> int" where
  "clampPlayers numPlayers =
     (let n1 = (if numPlayers < 2 then 2 else numPlayers);
          n2 = (if n1 > 4 then 4 else n1)
      in n2)"

definition newPlayer :: "GameMode \<Rightarrow> string list option \<Rightarrow> string list \<Rightarrow> nat \<Rightarrow> Card list \<Rightarrow> Player" where
  "newPlayer gm playerNames shuffledAvatars i dealt =
     (let bot = (if gm = VsBot then i > 0 else False);
          h = (if i = 0 \<or> gm = LocalMultiplayer then sortHand dealt else dealt);
          defaultName = (if bot then ''Bot '' @ show_nat i
                         else (if i = 0 then ''You'' else ''Player '' @ show_nat (i + 1)));
          given = (case playerNames of None \<Rightarrow> []
                   | Some ns \<Rightarrow> if i < length ns then ns ! i else []);
          botAvatar = (if i < length shuffledAvatars then shuffledAvatars ! i else [])
      in \<lparr>player_id = (if bot then ''bot-'' @ show_nat i else ''player-'' @ show_nat i),
          name = (if given \<noteq> [] then given else defaultName),
          avatar = (if bot then botAvatar else (if i = 0 then HUMAN_AVATAR else botAvatar)),
          isBot = bot,
          hand = h\<rparr>)"

text \<open>The dealing loop: \<^verbatim>\<open>deck.splice(0, handSize)\<close> for each player, with \<open>handSize = 7\<close>.\<close>

fun dealLoop :: "GameMode \<Rightarrow> string list option \<Rightarrow> string list \<Rightarrow> nat list \<Rightarrow>
    Card list \<Rightarrow> Player list \<Rightarrow> Card list \<times> Player list" where
  "dealLoop gm playerNames avs [] cards ps = (cards, ps)"
| "dealLoop gm playerNames avs (i # is) cards ps =
     dealLoop gm playerNames avs is (drop 7 cards)
       (ps @ [newPlayer gm playerNames avs i (take 7 cards)])"

definition createNewGame :: "rng \<Rightarrow> string list \<Rightarrow> int \<Rightarrow> Difficulty \<Rightarrow> GameMode \<Rightarrow>
    string list option \<Rightarrow> error + GameState" where
  "createNewGame rng shuffledAvatars numPlayers diff gm playerNames =
     (let n = clampPlayers numPlayers;
          shuffled = shuffleDeck rng 0 createDeck;
          (rest, ps) = dealLoop gm playerNames shuffledAvatars [0 ..< nat n] shuffled []
      in if rest = [] then Inl DeckError
         else Inr (GameState
           \<lparr>deck = butlast rest,
            discardPile = [last rest],
            players = ps,
            currentPlayerIndex = 0,
            direction = 1,
            winnerId = None,
            pendingPickup = 0,
            lastAction = ''Game Started! Have fun!'',
            difficulty = diff,
            gameMode = gm,
            pendingSuitChoice = False,
            chosenSuit = None,
            peekingCard = None,
            peekingPlayerId = None,
            pendingSwap = False,
            tournamentConfig = None,
            showPassScreen = (gm = LocalMultiplayer),
            nextPlayerName = (case ps of [] \<Rightarrow> [] | p # _ \<Rightarrow> name p),
            canUndo = False\<rparr> None))"

text \<open>
  \<^verbatim>\<open>cloneState\<close> copies the deck, the discard pile, the player list and every hand; the other
  fields, \<^verbatim>\<open>previousState\<close> among them, are carried over. On values the copy is the state
  itself (\<open>cloneState_same\<close> below): the model has no object identity.
\<close>

definition cloneState :: "GameState \<Rightarrow> GameState" where
  "cloneState state =
     GameState ((fields state)
        \<lparr>deck := deck (fields state),
         discardPile := discardPile (fields state),
         players := map (\<lambda>p. p\<lparr>hand := hand p\<rparr>) (players (fields state))\<rparr>)
       (previousState state)"

text \<open>
  The special-card effects of \<^verbatim>\<open>playCard\<close>, on the fields \<open>g\<close> in which the card \<open>c\<close> has
  already moved from the hand of the player at \<open>idx\<close> to the discard pile. The result is the
  fields, the action text and \<^verbatim>\<open>stepsToAdvance\<close>.
\<close>

definition applyEffect :: "rng \<Rightarrow> nat \<Rightarrow> Card \<Rightarrow> GameFields \<Rightarrow> string \<Rightarrow>
    GameFields \<times> string \<times> int" where
  "applyEffect rng idx c g actionText =
     (let player = players g ! idx in
      if isTwo c then
        (g\<lparr>pendingPickup := pendingPickup g + 2\<rparr>, glyph_boom @ '' +2 Cards Attack!'', 1)
      else if isBlackJack c then
        (g\<lparr>pendingPickup := pendingPickup g + 5\<rparr>, glyph_fire @ '' +5 Cards MEGA Attack!'', 1)
      else if rank c = Eight then
        (g, glyph_no_entry @ '' SKIP!'', if length (players g) = 2 then 0 else 2)
      else if rank c = Ace then
        (if length (players g) = 2 then (g, glyph_return @ '' Reverse!'', 0)
         else (g\<lparr>direction := direction g * (- 1)\<rparr>, glyph_return @ '' Reverse!'', 1))
      else if rank c = Queen then
        (g\<lparr>pendingSuitChoice := True\<rparr>, glyph_crown @ '' WILD! Choose a suit!'', 0)
      else if rank c = King then
        (if length (players g) > 2 then
           (g\<lparr>pendingSwap := True\<rparr>, glyph_prince @ '' SWAP! Choose a player!'', 0)
         else
           (case findIndex (\<lambda>p. player_id p \<noteq> player_id player) (players g) of
              None \<Rightarrow> (g, actionText, 1)
            | Some other \<Rightarrow>
                let otherPlayer = players g ! other;
                    tempHand = hand player
                in (g\<lparr>players := (players g)
                        [idx := player\<lparr>hand := hand otherPlayer\<rparr>,
                         other := otherPlayer\<lparr>hand := tempHand\<rparr>]\<rparr>,
                    glyph_prince @ '' SWAP! Hands exchanged!'', 1)))
      else if rank c = Seven then
        (let opponents =
               filter (\<lambda>p. player_id p \<noteq> player_id player \<and> length (hand p) > 0) (players g)
         in if length opponents > 0 then
              let randomOpponent = opponents ! (rng 0 mod length opponents);
                  randomCardIndex = rng 1 mod length (hand randomOpponent)
              in (g\<lparr>peekingCard := Some (hand randomOpponent ! randomCardIndex),
                    peekingPlayerId := Some (player_id randomOpponent)\<rparr>,
                  glyph_eye @ '' PEEK! Saw '' @ name randomOpponent @ [CHR 0x27] @ ''s card!'', 1)
            else (g, actionText, 1))
      else (g, actionText, 1))"

definition playCard :: "rng \<Rightarrow> GameState \<Rightarrow> string \<Rightarrow> error + GameState" where
  "playCard rng currentState cardId =
     (if truthy (winnerId (fields currentState)) then Inr currentState
      else
        let state = cloneState currentState; g = fields state in
        case playerAt (players g) (currentPlayerIndex g) of
          None \<Rightarrow> Inl TypeError
        | Some player \<Rightarrow>
            (case findIndex (\<lambda>c. card_id c = cardId) (hand player) of
               None \<Rightarrow> Inr currentState
             | Some cardIndex \<Rightarrow>
                 let idx = nat (currentPlayerIndex g);
                     c = hand player ! cardIndex;
                     player' = player\<lparr>hand := removeAt cardIndex (hand player)\<rparr>;
                     g1 = g\<lparr>players := (players g)[idx := player'],
                            discardPile := discardPile g @ [c]\<rparr>;
                     actionText =
                       name player @ '' played '' @ rank_str (rank c) @ suit_str (suit c)
                 in if length (hand player') = 0 then
                      Inr (GameState
                        (g1\<lparr>winnerId := Some (player_id player),
                            lastAction := name player @ '' wins! '' @ glyph_party\<rparr>)
                        (previousState state))
                    else
                      let (g2, actionText', stepsToAdvance) = applyEffect rng idx c g1 actionText;
                          g3 = g2\<lparr>lastAction := actionText'\<rparr>
                      in if stepsToAdvance > 0 then
                           withPrevious (previousState state) (advanceTurn g3 stepsToAdvance)
                         else Inr (GameState g3 (previousState state))))"

text \<open>
  The drawing loop of \<^verbatim>\<open>drawCard\<close>, on the deck, the discard pile, the hand of the acting
  player and the count \<^verbatim>\<open>actuallyDrawn\<close>; the first number counts the calls of the random
  source made so far, the second the iterations left. The \<^verbatim>\<open>break\<close> returns at once; a
  \<^verbatim>\<open>pop\<close> from an empty deck gives \<^verbatim>\<open>undefined\<close> and draws nothing.
\<close>

fun drawLoop :: "rng \<Rightarrow> nat \<Rightarrow> nat \<Rightarrow> Card list \<times> Card list \<times> Card list \<times> nat \<Rightarrow>
    Card list \<times> Card list \<times> Card list \<times> nat" where
  "drawLoop rng k 0 st = st"
| "drawLoop rng k (Suc n) (dk, dp, h, actuallyDrawn) =
     (if length dk = 0 then
        (if length dp > 1 then
           let topCard = last dp;
               newDeck = butlast dp;
               dk' = shuffleDeck rng k newDeck;
               k' = k + (length newDeck - 1)
           in (if dk' = [] then drawLoop rng k' n (dk', [topCard], h, actuallyDrawn)
               else drawLoop rng k' n (butlast dk', [topCard], h @ [last dk'], actuallyDrawn + 1))
         else (dk, dp, h, actuallyDrawn))
      else drawLoop rng k n (butlast dk, dp, h @ [last dk], actuallyDrawn + 1))"

definition drawCard :: "rng \<Rightarrow> GameState \<Rightarrow> error + GameState" where
  "drawCard rng currentState =
     (if truthy (winnerId (fields currentState)) then Inr currentState
      else
        let state = cloneState currentState; g = fields state in
        case playerAt (players g) (currentPlayerIndex g) of
          None \<Rightarrow> Inl TypeError
        | Some player \<Rightarrow>
            let idx = nat (currentPlayerIndex g);
                countToDraw = (if pendingPickup g > 0 then pendingPickup g else 1);
                (dk, dp, h, actuallyDrawn) =
                  drawLoop rng 0 (nat countToDraw) (deck g, discardPile g, hand player, 0);
                h' = (if \<not> isBot player then sortHand h else h);
                msg = (if pendingPickup g > 0
                        then name player @ '' had to pick up '' @ show_nat actuallyDrawn
                               @ ''! '' @ glyph_sweat
                        else name player @ '' drew a card'');
                g1 = g\<lparr>deck := dk, discardPile := dp,
                       players := (players g)[idx := player\<lparr>hand := h'\<rparr>],
                       lastAction := msg, pendingPickup := 0\<rparr>
            in withPrevious (previousState state) (advanceTurn g1 1))"

section \<open>Bot decision logic\<close>

text \<open>
  \<^verbatim>\<open>suitCounts\<close> is an object filled by \<^verbatim>\<open>suitCounts[c.suit] = (suitCounts[c.suit] || 0) + 1\<close>.
  Its keys are the suit strings, which are not array indices, so \<^verbatim>\<open>Object.entries\<close> lists
  them in the order in which they were first written: an association list in which a new key
  goes last.
\<close>

fun bump :: "Suit \<Rightarrow> (Suit \<times> int) list \<Rightarrow> (Suit \<times> int) list" where
  "bump s [] = [(s, 0 + 1)]"
| "bump s ((k, n) # kvs) =
     (if k = s then (k, (if n = 0 then 0 else n) + 1) # kvs else (k, n) # bump s kvs)"

definition countSuits :: "Card list \<Rightarrow> (Suit \<times> int) list" where
  "countSuits cards = foldl (\<lambda>suitCounts c. bump (suit c) suitCounts) [] cards"

text \<open>\<^verbatim>\<open>suitCounts[s] || 0\<close>.\<close>

definition countOf :: "(Suit \<times> int) list \<Rightarrow> Suit \<Rightarrow> int" where
  "countOf suitCounts s = (case map_of suitCounts s of None \<Rightarrow> 0 | Some n \<Rightarrow> n)"

datatype BotDecision = Play string | Draw

definition isAttack :: "Card \<Rightarrow> bool" where
  "isAttack c = (isTwo c \<or> isBlackJack c)"

definition compareHard :: "bool \<Rightarrow> (Suit \<times> int) list \<Rightarrow> Card \<Rightarrow> Card \<Rightarrow> int" where
  "compareHard shouldAttack suitCounts a b =
     (if shouldAttack \<and> isAttack a \<and> \<not> isAttack b then - 1
      else if shouldAttack \<and> \<not> isAttack a \<and> isAttack b then 1
      else if \<not> shouldAttack \<and> isAttack a \<and> \<not> isAttack b then 1
      else if \<not> shouldAttack \<and> \<not> isAttack a \<and> isAttack b then - 1
      else countOf suitCounts (suit a) - countOf suitCounts (suit b))"

definition compareMedium :: "(Suit \<times> int) list \<Rightarrow> Card \<Rightarrow> Card \<Rightarrow> int" where
  "compareMedium suitCounts a b =
     (if isAttack a \<and> \<not> isAttack b then - 1
      else if \<not> isAttack a \<and> isAttack b then 1
      else countOf suitCounts (suit b) - countOf suitCounts (suit a))"

text \<open>
  \<^verbatim>\<open>getBotDecision\<close>. \<^verbatim>\<open>Math.random() < 0.3\<close> is \<open>rng k mod 10 < 3\<close>. The result carries the
  number of calls of the random source that were made. Reading \<^verbatim>\<open>bot.hand\<close> of a missing
  player throws, and so does \<^verbatim>\<open>topDiscard.rank\<close> when the discard pile is empty and the
  hand is not.
\<close>

definition getBotDecision :: "rng \<Rightarrow> GameState \<Rightarrow> error + (BotDecision \<times> nat)" where
  "getBotDecision rng state =
     (let g = fields state in
      case playerAt (players g) (currentPlayerIndex g) of
        None \<Rightarrow> Inl TypeError
      | Some botPlayer \<Rightarrow>
          if hand botPlayer \<noteq> [] \<and> discardPile g = [] then Inl TypeError
          else
            let topCard = last (discardPile g);
                pending = pendingPickup g;
                validMoves = filter (\<lambda>c. isValidMove c topCard pending) (hand botPlayer)
            in if length validMoves = 0 then Inr (Draw, 0)
               else if difficulty g = Easy then
                 (if pending = 0 \<and> rng 0 mod 10 < 3 then Inr (Draw, 1)
                  else
                    let used = (if pending = 0 then 1 else 0);
                        randomIndex = rng used mod length validMoves
                    in Inr (Play (card_id (validMoves ! randomIndex)), used + 1))
               else if difficulty g = Hard then
                 (let humanHandSize =
                        (case find (\<lambda>p. \<not> isBot p) (players g) of
                           None \<Rightarrow> 7
                         | Some humanPlayer \<Rightarrow>
                             if length (hand humanPlayer) = 0 then 7
                             else int (length (hand humanPlayer)));
                      shouldAttack = (humanHandSize \<le> 3);
                      suitCounts = countSuits (hand botPlayer);
                      sorted = sortBy (compareHard shouldAttack suitCounts) validMoves
                  in Inr (Play (card_id (hd sorted)), 0))
               else
                 (let suitCounts = countSuits (hand botPlayer);
                      sorted = sortBy (compareMedium suitCounts) validMoves
                  in Inr (Play (card_id (hd sorted)), 0)))"

text \<open>
  \<^verbatim>\<open>performBotTurn\<close>. \<^verbatim>\<open>decision.action === 'play' && decision.cardId\<close> asks for a card id
  that is not the empty string. The call that follows sees the random source after the
  calls the decision made.
\<close>

definition performBotTurn :: "rng \<Rightarrow> GameState \<Rightarrow> error + GameState" where
  "performBotTurn rng currentState =
     (if truthy (winnerId (fields currentState)) then Inr currentState
      else case getBotDecision rng currentState of
        Inl e \<Rightarrow> Inl e
      | Inr (decision, used) \<Rightarrow>
          (case decision of
             Play cardId \<Rightarrow>
               if cardId \<noteq> [] then playCard (\<lambda>k. rng (k + used)) currentState cardId
               else drawCard (\<lambda>k. rng (k + used)) currentState
           | Draw \<Rightarrow> drawCard (\<lambda>k. rng (k + used)) currentState))"

section \<open>Power-up card actions\<close>

definition chooseSuit :: "GameState \<Rightarrow> Suit \<Rightarrow> error + GameState" where
  "chooseSuit currentState s =
     (if \<not> pendingSuitChoice (fields currentState) then Inr currentState
      else
        let state = cloneState currentState;
            g = (fields state)
                  \<lparr>chosenSuit := Some s,
                   pendingSuitChoice := False,
                   lastAction := glyph_crown @ '' Changed suit to '' @ suit_str s @ ''!''\<rparr>
        in withPrevious (previousState state) (advanceTurn g 1))"

definition swapWith :: "GameState \<Rightarrow> string \<Rightarrow> error + GameState" where
  "swapWith currentState targetPlayerId =
     (if \<not> pendingSwap (fields currentState) then Inr currentState
      else
        let state = cloneState currentState; g = fields state in
        case findIndex (\<lambda>p. player_id p = targetPlayerId) (players g) of
          None \<Rightarrow> Inr currentState
        | Some target \<Rightarrow>
            (case playerAt (players g) (currentPlayerIndex g) of
               None \<Rightarrow> Inl TypeError
             | Some currentPlayer \<Rightarrow>
                 let idx = nat (currentPlayerIndex g);
                     targetPlayer = players g ! target;
                     tempHand = hand currentPlayer;
                     g1 = g\<lparr>players := (players g)
                              [idx := currentPlayer\<lparr>hand := hand targetPlayer\<rparr>,
                               target := targetPlayer\<lparr>hand := tempHand\<rparr>],
                            pendingSwap := False,
                            lastAction := glyph_prince @ '' '' @ name currentPlayer
                              @ '' swapped with '' @ name targetPlayer @ ''!''\<rparr>
                 in withPrevious (previousState state) (advanceTurn g1 1)))"

definition clearPeek :: "GameState \<Rightarrow> error + GameState" where
  "clearPeek currentState =
     (let state = cloneState currentState
      in Inr (GameState ((fields state)\<lparr>peekingCard := None, peekingPlayerId := None\<rparr>)
                (previousState state)))"

definition confirmPassScreen :: "GameState \<Rightarrow> error + GameState" where
  "confirmPassScreen currentState =
     (let state = cloneState currentState
      in Inr (GameState ((fields state)\<lparr>showPassScreen := False\<rparr>) (previousState state)))"

definition triggerPassScreen :: "GameState \<Rightarrow> error + GameState" where
  "triggerPassScreen currentState =
     (let state = cloneState currentState; g = fields state in
      case playerAt (players g) (currentPlayerIndex g) of
        None \<Rightarrow> Inl TypeError
      | Some nextPlayer \<Rightarrow>
          Inr (GameState (g\<lparr>showPassScreen := True, nextPlayerName := name nextPlayer\<rparr>)
                 (previousState state)))"

text \<open>
  The choice of \<^verbatim>\<open>botChooseSuit\<close>: the loop over \<^verbatim>\<open>Object.entries(suitCounts)\<close>, from
  \<^verbatim>\<open>bestSuit = Suit.Hearts\<close> and \<^verbatim>\<open>maxCount = 0\<close>.
\<close>

fun bestLoop :: "(Suit \<times> int) list \<Rightarrow> Suit \<times> int \<Rightarrow> Suit \<times> int" where
  "bestLoop [] acc = acc"
| "bestLoop ((s, n) # entries) (bestSuit, maxCount) =
     (if n > maxCount then bestLoop entries (s, n) else bestLoop entries (bestSuit, maxCount))"

definition bestSuitOf :: "Card list \<Rightarrow> Suit" where
  "bestSuitOf cards = fst (bestLoop (countSuits cards) (Hearts, 0))"

definition botChooseSuit :: "GameState \<Rightarrow> error + GameState" where
  "botChooseSuit currentState =
     (let g = fields currentState in
      case playerAt (players g) (currentPlayerIndex g) of
        None \<Rightarrow> Inl TypeError
      | Some botPlayer \<Rightarrow> chooseSuit currentState (bestSuitOf (hand botPlayer)))"

text \<open>
  \<^verbatim>\<open>botChooseSwap\<close>: \<^verbatim>\<open>reduce\<close> keeps the first of the other players with the fewest
  cards. With no other player the target is \<^verbatim>\<open>undefined\<close> and \<^verbatim>\<open>target.id\<close> throws.
\<close>

definition botChooseSwap :: "GameState \<Rightarrow> error + GameState" where
  "botChooseSwap currentState =
     (let g = fields currentState in
      case playerAt (players g) (currentPlayerIndex g) of
        None \<Rightarrow> Inl TypeError
      | Some botPlayer \<Rightarrow>
          (case filter (\<lambda>p. player_id p \<noteq> player_id botPlayer) (players g) of
             [] \<Rightarrow> Inl TypeError
           | first # others \<Rightarrow>
               let target = foldl (\<lambda>m p. if length (hand p) < length (hand m) then p else m)
                              first (first # others)
               in swapWith currentState (player_id target)))"

section \<open>Undo\<close>

definition saveStateForUndo :: "GameState \<Rightarrow> GameState" where
  "saveStateForUndo currentState =
     (let state = cloneState currentState;
          snapshot = GameState ((fields (cloneState currentState))\<lparr>canUndo := False\<rparr>) None
      in GameState ((fields state)\<lparr>canUndo := True\<rparr>) (Some snapshot))"

definition undoLastMove :: "GameState \<Rightarrow> GameState option" where
  "undoLastMove currentState =
     (if \<not> canUndo (fields currentState) then None
      else case previousState currentState of
        None \<Rightarrow> None
      | Some prev \<Rightarrow>
          let restoredState = cloneState prev
          in Some (GameState
               ((fields restoredState)
                  \<lparr>canUndo := False, lastAction := glyph_return @ '' Move undone!''\<rparr>)
               None))"

section \<open>The engine as seen by its driver\<close>

text \<open>
  The driver holds a state and replaces it by what a call returns. \<open>outcome\<close> is the state a
  call hands back: none when the call throws, and none when \<^verbatim>\<open>undoLastMove\<close> returns
  \<^verbatim>\<open>null\<close>. A state is reachable when it comes from \<^verbatim>\<open>createNewGame\<close> by such calls.
\<close>

datatype call =
    PlayCard rng string
  | DrawCard rng
  | PerformBotTurn rng
  | ChooseSuit Suit
  | SwapWith string
  | ClearPeek
  | ConfirmPassScreen
  | TriggerPassScreen
  | BotChooseSuit
  | BotChooseSwap
  | SaveStateForUndo
  | UndoLastMove

definition returned :: "error + GameState \<Rightarrow> GameState option" where
  "returned r = (case r of Inl e \<Rightarrow> None | Inr s \<Rightarrow> Some s)"

fun outcome :: "call \<Rightarrow> GameState \<Rightarrow> GameState option" where
  "outcome (PlayCard rng cardId) s = returned (playCard rng s cardId)"
| "outcome (DrawCard rng) s = returned (drawCard rng s)"
| "outcome (PerformBotTurn rng) s = returned (performBotTurn rng s)"
| "outcome (ChooseSuit x) s = returned (chooseSuit s x)"
| "outcome (SwapWith targetPlayerId) s = returned (swapWith s targetPlayerId)"
| "outcome ClearPeek s = returned (clearPeek s)"
| "outcome ConfirmPassScreen s = returned (confirmPassScreen s)"
| "outcome TriggerPassScreen s = returned (triggerPassScreen s)"
| "outcome BotChooseSuit s = returned (botChooseSuit s)"
| "outcome BotChooseSwap s = returned (botChooseSwap s)"
| "outcome SaveStateForUndo s = Some (saveStateForUndo s)"
| "outcome UndoLastMove s = undoLastMove s"

inductive reachable :: "GameState \<Rightarrow> bool" where
  start: "createNewGame rng avs numPlayers diff gm playerNames = Inr s \<Longrightarrow> reachable s"
| step: "reachable s \<Longrightarrow> outcome c s = Some s' \<Longrightarrow> reachable s'"

text \<open>The calls made one after the other, from a state that may be missing.\<close>

fun run :: "call list \<Rightarrow> GameState option \<Rightarrow> GameState option" where
  "run [] r = r"
| "run (c # cs) r = (case r of None \<Rightarrow> None | Some s \<Rightarrow> run cs (outcome c s))"

text \<open>
  A driver that lets a pending choice be resolved before the next card is played: it calls
  \<open>playCard\<close> and \<open>performBotTurn\<close> only when neither \<open>pendingSuitChoice\<close> nor \<open>pendingSwap\<close>
  is set.
\<close>

definition resolvesFirst :: "call \<Rightarrow> GameState \<Rightarrow> bool" where
  "resolvesFirst c s =
     (case c of
        PlayCard rng cardId \<Rightarrow> \<not> pendingSuitChoice (fields s) \<and> \<not> pendingSwap (fields s)
      | PerformBotTurn rng \<Rightarrow> \<not> pendingSuitChoice (fields s) \<and> \<not> pendingSwap (fields s)
      | _ \<Rightarrow> True)"

inductive reachableResolving :: "GameState \<Rightarrow> bool" where
  start: "createNewGame rng avs numPlayers diff gm playerNames = Inr s \<Longrightarrow> reachableResolving s"
| step: "reachableResolving s \<Longrightarrow> resolvesFirst c s \<Longrightarrow> outcome c s = Some s' \<Longrightarrow>
     reachableResolving s'"

text \<open>The calls of such a driver made one after the other; none when a call is not allowed.\<close>

fun runResolving :: "call list \<Rightarrow> GameState option \<Rightarrow> GameState option" where
  "runResolving [] r = r"
| "runResolving (c # cs) r =
     (case r of None \<Rightarrow> None
      | Some s \<Rightarrow> if resolvesFirst c s then runResolving cs (outcome c s) else None)"

section \<open>Properties of states\<close>

definition handTotal :: "Player list \<Rightarrow> nat" where
  "handTotal ps = sum_list (map (\<lambda>p. length (hand p)) ps)"

text \<open>\<^verbatim>\<open>deck.length + discardPile.length\<close> plus the lengths of all hands.\<close>

definition cardTotal :: "GameFields \<Rightarrow> nat" where
  "cardTotal g = length (deck g) + length (discardPile g) + handTotal (players g)"

text \<open>The cards themselves, as a multiset: those of the deck, of the discard pile and of all
  hands.\<close>

definition handCards :: "Player list \<Rightarrow> Card multiset" where
  "handCards ps = sum_list (map (\<lambda>p. mset (hand p)) ps)"

definition allCards :: "GameFields \<Rightarrow> Card multiset" where
  "allCards g = mset (deck g) + mset (discardPile g) + handCards (players g)"

text \<open>The current index names a player: \<open>0 \<le> currentPlayerIndex < players.length\<close>.\<close>

definition namesPlayer :: "GameFields \<Rightarrow> bool" where
  "namesPlayer g =
     (0 \<le> currentPlayerIndex g \<and> currentPlayerIndex g < int (length (players g)))"

text \<open>At most one choice is pending.\<close>

definition oneChoice :: "GameFields \<Rightarrow> bool" where
  "oneChoice g = (\<not> (pendingSuitChoice g \<and> pendingSwap g))"

text \<open>A property of the fields that holds of a state and of every state kept for undo
  behind it.\<close>

fun chain :: "(GameFields \<Rightarrow> bool) \<Rightarrow> GameState \<Rightarrow> bool" where
  "chain P (GameState g prev) = (P g \<and> (case prev of None \<Rightarrow> True | Some p \<Rightarrow> chain P p))"

text \<open>The number of cards of a suit in a hand, and the position of the first of them (the
  length of the hand when there is none).\<close>

definition suitCount :: "Card list \<Rightarrow> Suit \<Rightarrow> nat" where
  "suitCount cards s = length (filter (\<lambda>c. suit c = s) cards)"

definition firstSeen :: "Card list \<Rightarrow> Suit \<Rightarrow> nat" where
  "firstSeen cards s = length (takeWhile (\<lambda>c. suit c \<noteq> s) cards)"

text \<open>
  The choice of \<^verbatim>\<open>botChooseSuit\<close> as the specification words it, for comparison with
  \<open>bestSuitOf\<close>: the same loop, over the four suits in the order of their declaration.
\<close>

definition declarationOrderBest :: "Card list \<Rightarrow> Suit" where
  "declarationOrderBest cards =
     fst (bestLoop (map (\<lambda>s. (s, int (suitCount cards s))) all_suits) (Hearts, 0))"

section \<open>Sample states\<close>

text \<open>Small tables and short games on which the theorems below are run.\<close>

definition tableOf :: "Card list \<Rightarrow> Card list \<Rightarrow> Player list \<Rightarrow> GameFields" where
  "tableOf dk dp ps =
     \<lparr>deck = dk, discardPile = dp, players = ps, currentPlayerIndex = 0, direction = 1,
      winnerId = None, pendingPickup = 0, lastAction = [], difficulty = Medium,
      gameMode = VsBot, pendingSuitChoice = False, chosenSuit = None, peekingCard = None,
      peekingPlayerId = None, pendingSwap = False, tournamentConfig = None,
      showPassScreen = False, nextPlayerName = ''You'', canUndo = False\<rparr>"

definition seat :: "string \<Rightarrow> bool \<Rightarrow> Card list \<Rightarrow> Player" where
  "seat pid b h = \<lparr>player_id = pid, name = pid, avatar = [], isBot = b, hand = h\<rparr>"

text \<open>A random source that always answers 0.\<close>

definition noRandom :: rng where
  "noRandom k = 0"

text \<open>The human holds the Jack of Spades as last card, under an attack of 2.\<close>

definition lastCardState :: GameState where
  "lastCardState =
     GameState ((tableOf [mkCard Diamonds Three] [mkCard Clubs Five]
        [seat ''player-0'' False [mkCard Spades Jack],
         seat ''bot-1'' True [mkCard Hearts Nine]])\<lparr>pendingPickup := 2\<rparr>) None"

text \<open>
  Three players, the human under an attack of 2 with the Two of Clubs on top of the discard
  pile, the turn order reversed and a suit choice still pending.
\<close>

definition underAttackState :: GameState where
  "underAttackState =
     GameState ((tableOf [mkCard Diamonds Three] [mkCard Clubs Two]
        [seat ''player-0'' False [mkCard Hearts Two, mkCard Spades Jack, mkCard Hearts Five],
         seat ''bot-1'' True [mkCard Hearts Nine],
         seat ''bot-2'' True [mkCard Hearts Ten]])
        \<lparr>pendingPickup := 2, direction := - 1, pendingSuitChoice := True\<rparr>) None"

text \<open>A finished game with nothing pending, in which a peeked card is still shown.\<close>

definition finishedState :: GameState where
  "finishedState =
     GameState ((tableOf [mkCard Diamonds Three] [mkCard Clubs Five, mkCard Spades Jack]
        [seat ''player-0'' False [],
         seat ''bot-1'' True [mkCard Hearts Nine]])
        \<lparr>winnerId := Some ''player-0'', pendingPickup := 2,
         peekingCard := Some (mkCard Hearts Nine), peekingPlayerId := Some ''bot-1''\<rparr>) None"

text \<open>The bot must choose a suit and holds one Spade, dealt first, and one Heart.\<close>

definition tieState :: GameState where
  "tieState =
     GameState ((tableOf [mkCard Diamonds Three] [mkCard Clubs Five, mkCard Clubs Queen]
        [seat ''player-0'' False [mkCard Diamonds Four],
         seat ''bot-1'' True [mkCard Spades Two, mkCard Hearts Three]])
        \<lparr>currentPlayerIndex := 1, pendingSuitChoice := True\<rparr>) None"

text \<open>
  Games dealt from the unshuffled deck: with the random source \<open>idShuffle\<close> every exchange of
  \<open>shuffleDeck\<close> is an exchange of a card with itself, so that the first player is dealt the
  Hearts from Two to Eight and the second the Hearts from Nine to Ace and the Two of Diamonds.

  In the two-player game thirteen calls of \<open>playCard\<close> follow: the bot plays the Queen of
  Hearts and never resolves the suit choice, and later wins with its last card.
\<close>

definition idShuffle :: rng where
  "idShuffle k = 51 - k"

definition twoPlayerGame :: "GameState option" where
  "twoPlayerGame = returned (createNewGame idShuffle [] 2 Medium VsBot None)"

definition playsUntilWin :: "call list" where
  "playsUntilWin = map (\<lambda>(s, r). PlayCard noRandom (card_id (mkCard s r)))
     [(Hearts, Two), (Hearts, Queen), (Hearts, Ace), (Hearts, Nine), (Hearts, Eight),
      (Hearts, Three), (Hearts, Ten), (Hearts, Four), (Hearts, Jack), (Hearts, Five),
      (Diamonds, Two), (Hearts, Six), (Hearts, King)]"

definition wonWhilePending :: GameState where
  "wonWhilePending = the (run playsUntilWin twoPlayerGame)"

text \<open>
  In the three-player game the human plays the Two of Hearts, and the bot that follows plays
  the Queen and then the King of Hearts.
\<close>

definition threePlayerGame :: "GameState option" where
  "threePlayerGame = returned (createNewGame idShuffle [] 3 Medium VsBot None)"

definition queenThenKing :: "call list" where
  "queenThenKing = map (\<lambda>(s, r). PlayCard noRandom (card_id (mkCard s r)))
     [(Hearts, Two), (Hearts, Queen), (Hearts, King)]"

definition bothPending :: GameState where
  "bothPending = the (run queenThenKing threePlayerGame)"

text \<open>After the Queen and the King the player under attack draws.\<close>

definition afterPickup :: GameState where
  "afterPickup = the (run (queenThenKing @ [DrawCard noRandom]) threePlayerGame)"

text \<open>In the three-player game again: the Queen is resolved by a suit choice before the next
  cards are played, the last of them a King.\<close>

definition resolvedPlay :: "call list" where
  "resolvedPlay =
     [PlayCard noRandom (card_id (mkCard Hearts Two)),
      PlayCard noRandom (card_id (mkCard Hearts Queen)),
      ChooseSuit Spades,
      PlayCard noRandom (card_id (mkCard Diamonds Three)),
      PlayCard noRandom (card_id (mkCard Hearts Three)),
      PlayCard noRandom (card_id (mkCard Hearts King))]"

definition afterResolvedPlay :: GameState where
  "afterResolvedPlay = the (runResolving resolvedPlay threePlayerGame)"

section \<open>Basic facts\<close>

subsection \<open>Values and turn order\<close>

lemma cloneState_same [simp]: "cloneState s = s"
  by (cases s) (simp add: cloneState_def)

lemma js_rem_nonneg: "0 \<le> a \<Longrightarrow> 0 < n \<Longrightarrow> js_rem a n = a mod n"
  by (cases "a = 0") (simp_all add: js_rem_def)

lemma js_rem_neg: "a < 0 \<Longrightarrow> 0 < n \<Longrightarrow> js_rem a n = - ((- a) mod n)"
  by (simp add: js_rem_def)

lemma js_rem_wrap: "0 < n \<Longrightarrow> js_rem (js_rem a n + n) n = a mod n"
proof (cases "0 \<le> a")
  case True
  assume n: "0 < n"
  with True have "js_rem a n = a mod n" by (rule js_rem_nonneg)
  moreover have "0 \<le> a mod n + n" using n by (simp add: add_nonneg_nonneg)
  ultimately show ?thesis using n by (simp add: js_rem_nonneg)
next
  case False
  assume n: "0 < n"
  from False have neg: "a < 0" by simp
  have r: "js_rem a n = - ((- a) mod n)" using neg n by (rule js_rem_neg)
  have lt: "(- a) mod n < n" using n by simp
  have "0 \<le> - ((- a) mod n) + n" using lt by simp
  then have "js_rem (js_rem a n + n) n = (- ((- a) mod n) + n) mod n"
    using n r by (simp add: js_rem_nonneg)
  also have "\<dots> = (- ((- a) mod n)) mod n" by simp
  also have "\<dots> = a mod n" by (simp add: mod_minus_eq)
  finally show ?thesis .
qed

lemma advanceTurn_Inr:
  "players g \<noteq> [] \<Longrightarrow>
   advanceTurn g steps =
     Inr (g\<lparr>currentPlayerIndex :=
       (currentPlayerIndex g + direction g * steps) mod int (length (players g))\<rparr>)"
  by (simp add: advanceTurn_def Let_def js_rem_wrap)

lemma advanceTurn_eq:
  "advanceTurn g k =
     (if players g = [] then Inl NotANumber
      else Inr (g\<lparr>currentPlayerIndex :=
        (currentPlayerIndex g + direction g * k) mod int (length (players g))\<rparr>))"
  by (simp add: advanceTurn_Inr) (simp add: advanceTurn_def)

lemma mod_names_player:
  "ps \<noteq> [] \<Longrightarrow> 0 \<le> x mod int (length ps) \<and> x mod int (length ps) < int (length ps)"
  by simp

lemma playerAt_Some:
  "playerAt ps i = Some p \<longleftrightarrow> 0 \<le> i \<and> nat i < length ps \<and> p = ps ! nat i"
  by (auto simp: playerAt_def)

lemma findIndex_Some:
  "findIndex P xs = Some k \<Longrightarrow> k < length xs \<and> P (xs ! k) \<and> (\<forall>j<k. \<not> P (xs ! j))"
proof (induction xs arbitrary: k)
  case Nil
  then show ?case by simp
next
  case (Cons x xs)
  show ?case
  proof (cases "P x")
    case True
    with Cons.prems show ?thesis by simp
  next
    case False
    with Cons.prems obtain k' where k': "findIndex P xs = Some k'" "k = Suc k'" by auto
    from Cons.IH [OF k'(1)] False k'(2) show ?thesis
      by (auto simp: nth_Cons split: nat.splits)
  qed
qed

lemma length_removeAt: "i < length xs \<Longrightarrow> Suc (length (removeAt i xs)) = length xs"
  by (auto simp: removeAt_def)

lemma returned_Some: "returned r = Some s \<longleftrightarrow> r = Inr s"
  by (cases r) (simp_all add: returned_def)

subsection \<open>Shuffling, sorting and dealing\<close>

lemma length_shuffleLoop: "length (shuffleLoop rng k i xs) = length xs"
  by (induction i arbitrary: k xs) (simp_all add: Let_def)

lemma length_shuffleDeck: "length (shuffleDeck rng k xs) = length xs"
  by (simp add: shuffleDeck_def length_shuffleLoop)

lemma length_insertBy: "length (insertBy cmp x xs) = Suc (length xs)"
  by (induction xs) simp_all

lemma length_sortBy: "length (sortBy cmp xs) = length xs"
  by (induction xs) (simp_all add: sortBy_def length_insertBy)

lemma length_sortHand: "length (sortHand xs) = length xs"
  by (simp add: sortHand_def length_sortBy)

lemma length_createDeck: "length createDeck = 52"
  by (simp add: createDeck_def all_suits_def all_ranks_def)

lemma hand_newPlayer_length: "length (hand (newPlayer gm nms avs j dealt)) = length dealt"
  by (simp add: newPlayer_def Let_def length_sortHand)

lemma dealLoop_total:
  "dealLoop gm nms avs js cards ps = (rest, ps') \<Longrightarrow>
     length rest + handTotal ps' = length cards + handTotal ps"
proof (induction js arbitrary: cards ps)
  case Nil
  then show ?case by simp
next
  case (Cons j js)
  from Cons.prems have "dealLoop gm nms avs js (drop 7 cards)
      (ps @ [newPlayer gm nms avs j (take 7 cards)]) = (rest, ps')" by simp
  from Cons.IH [OF this] have "length rest + handTotal ps' =
      length (drop 7 cards) + (handTotal ps + length (take 7 cards))"
    by (simp add: handTotal_def hand_newPlayer_length)
  moreover have "length (take 7 cards) + length (drop 7 cards) = length cards"
    by (simp only: length_append [symmetric] append_take_drop_id)
  ultimately show ?case by simp
qed

lemma dealLoop_length:
  "dealLoop gm nms avs js cards ps = (rest, ps') \<Longrightarrow> length ps' = length ps + length js"
  by (induction js arbitrary: cards ps) auto

lemma clampPlayers_range: "2 \<le> clampPlayers n \<and> clampPlayers n \<le> 4"
  by (simp add: clampPlayers_def Let_def)

subsection \<open>Playing a card\<close>

lemma playCard_win_result:
  assumes live: "\<not> truthy (winnerId (fields s))"
    and pl: "playerAt (players (fields s)) (currentPlayerIndex (fields s)) = Some player"
    and found: "findIndex (\<lambda>c. card_id c = cardId) (hand player) = Some i"
    and empty: "removeAt i (hand player) = []"
  shows "playCard rng s cardId =
     Inr (GameState
       ((fields s)
          \<lparr>players := (players (fields s))
              [nat (currentPlayerIndex (fields s)) := player\<lparr>hand := []\<rparr>],
           discardPile := discardPile (fields s) @ [hand player ! i],
           winnerId := Some (player_id player),
           lastAction := name player @ '' wins! '' @ glyph_party\<rparr>)
       (previousState s))"
  using assms by (simp add: playCard_def Let_def)

lemma playCard_effect_result:
  assumes live: "\<not> truthy (winnerId (fields s))"
    and pl: "playerAt (players (fields s)) (currentPlayerIndex (fields s)) = Some player"
    and found: "findIndex (\<lambda>c. card_id c = cardId) (hand player) = Some i"
    and more: "removeAt i (hand player) \<noteq> []"
    and g1: "g1 = (fields s)
          \<lparr>players := (players (fields s))
              [nat (currentPlayerIndex (fields s)) := player\<lparr>hand := removeAt i (hand player)\<rparr>],
           discardPile := discardPile (fields s) @ [hand player ! i]\<rparr>"
    and eff: "applyEffect rng (nat (currentPlayerIndex (fields s))) (hand player ! i) g1
          (name player @ '' played '' @ rank_str (rank (hand player ! i))
             @ suit_str (suit (hand player ! i))) = (g2, txt, steps)"
  shows "playCard rng s cardId =
     (if steps > 0 then withPrevious (previousState s) (advanceTurn (g2\<lparr>lastAction := txt\<rparr>) steps)
      else Inr (GameState (g2\<lparr>lastAction := txt\<rparr>) (previousState s)))"
  using live pl found more eff unfolding g1
  by (simp add: playCard_def Let_def)

lemma applyEffect_discardPile:
  "discardPile (fst (applyEffect rng idx c g t)) = discardPile g"
  by (simp add: applyEffect_def Let_def split: option.splits)

lemma applyEffect_deck:
  "deck (fst (applyEffect rng idx c g t)) = deck g"
  by (simp add: applyEffect_def Let_def split: option.splits)

lemma applyEffect_length_players:
  "length (players (fst (applyEffect rng idx c g t))) = length (players g)"
  by (simp add: applyEffect_def Let_def split: option.splits)

lemma applyEffect_canUndo:
  "canUndo (fst (applyEffect rng idx c g t)) = canUndo g"
  by (simp add: applyEffect_def Let_def split: option.splits)

lemma applyEffect_currentPlayerIndex:
  "currentPlayerIndex (fst (applyEffect rng idx c g t)) = currentPlayerIndex g"
  by (simp add: applyEffect_def Let_def split: option.splits)

lemma applyEffect_hand_kept:
  assumes "idx < length (players g)"
  shows "\<exists>j<length (players g).
     hand (players (fst (applyEffect rng idx c g t)) ! j) = hand (players g ! idx)"
proof (cases "rank c = King \<and> \<not> isTwo c \<and> \<not> length (players g) > 2")
  case False
  then have "players (fst (applyEffect rng idx c g t)) = players g"
    by (auto simp add: applyEffect_def Let_def isBlackJack_def split: option.splits)
  with assms show ?thesis by auto
next
  case True
  show ?thesis
  proof (cases "findIndex (\<lambda>p. player_id p \<noteq> player_id (players g ! idx)) (players g)")
    case None
    with True have "players (fst (applyEffect rng idx c g t)) = players g"
      by (simp add: applyEffect_def Let_def isBlackJack_def)
    with assms show ?thesis by auto
  next
    case (Some other)
    from findIndex_Some [OF Some] have o: "other < length (players g)" by simp
    from Some True have "players (fst (applyEffect rng idx c g t)) =
       (players g)[idx := (players g ! idx)\<lparr>hand := hand (players g ! other)\<rparr>,
                   other := (players g ! other)\<lparr>hand := hand (players g ! idx)\<rparr>]"
      by (simp add: applyEffect_def Let_def isBlackJack_def)
    with o show ?thesis by auto
  qed
qed

lemma playCard_found:
  assumes live: "\<not> truthy (winnerId (fields s))"
    and pl: "playerAt (players (fields s)) (currentPlayerIndex (fields s)) = Some player"
    and found: "findIndex (\<lambda>c. card_id c = cardId) (hand player) = Some i"
  shows "\<exists>s'. playCard rng s cardId = Inr s' \<and>
      discardPile (fields s') = discardPile (fields s) @ [hand player ! i] \<and>
      deck (fields s') = deck (fields s) \<and>
      length (players (fields s')) = length (players (fields s)) \<and>
      (\<exists>j<length (players (fields s)).
          hand (players (fields s') ! j) = removeAt i (hand player))"
proof (cases "removeAt i (hand player) = []")
  case True
  from pl have "nat (currentPlayerIndex (fields s)) < length (players (fields s))"
    by (simp add: playerAt_Some)
  then show ?thesis
    unfolding playCard_win_result [OF live pl found True] using True by auto
next
  case False
  define idx where "idx = nat (currentPlayerIndex (fields s))"
  define g1 where "g1 = (fields s)
          \<lparr>players := (players (fields s))[idx := player\<lparr>hand := removeAt i (hand player)\<rparr>],
           discardPile := discardPile (fields s) @ [hand player ! i]\<rparr>"
  define t where "t = name player @ '' played '' @ rank_str (rank (hand player ! i))
             @ suit_str (suit (hand player ! i))"
  obtain g2 msg steps where eff: "applyEffect rng idx (hand player ! i) g1 t = (g2, msg, steps)"
    by (cases "applyEffect rng idx (hand player ! i) g1 t") auto
  from pl have idx: "idx < length (players (fields s))"
    by (simp add: playerAt_Some idx_def)
  have res: "playCard rng s cardId =
     (if steps > 0 then withPrevious (previousState s) (advanceTurn (g2\<lparr>lastAction := msg\<rparr>) steps)
      else Inr (GameState (g2\<lparr>lastAction := msg\<rparr>) (previousState s)))"
    using playCard_effect_result [OF live pl found False] eff
    unfolding g1_def idx_def t_def by simp
  have g2: "g2 = fst (applyEffect rng idx (hand player ! i) g1 t)" using eff by simp
  have len: "length (players g2) = length (players (fields s))"
    unfolding g2 applyEffect_length_players by (simp add: g1_def)
  have dp: "discardPile g2 = discardPile (fields s) @ [hand player ! i]"
    unfolding g2 applyEffect_discardPile by (simp add: g1_def)
  have dk: "deck g2 = deck (fields s)"
    unfolding g2 applyEffect_deck by (simp add: g1_def)
  have "idx < length (players g1)" using idx by (simp add: g1_def)
  from applyEffect_hand_kept [OF this, of rng "hand player ! i" t]
  obtain j where j: "j < length (players (fields s))"
      "hand (players g2 ! j) = removeAt i (hand player)"
    using idx unfolding g2 by (auto simp: g1_def)
  have ne: "players (g2\<lparr>lastAction := msg\<rparr>) \<noteq> []" using len idx by auto
  show ?thesis
    unfolding res using len dp dk j
    by (auto simp: advanceTurn_Inr [OF ne] withPrevious_def)
qed

text \<open>What a call of \<open>playCard\<close> that returns can have done: nothing, the winning move, or a
  card effect followed by a turn index \<open>x\<close> that is the old one or names a player.\<close>

lemma playCard_shape [consumes 1, case_names same win effect]:
  assumes "playCard rng s cardId = Inr s'"
  obtains "s' = s"
  | player i where
      "playerAt (players (fields s)) (currentPlayerIndex (fields s)) = Some player"
      "findIndex (\<lambda>c. card_id c = cardId) (hand player) = Some i"
      "removeAt i (hand player) = []"
      "s' = GameState
         ((fields s)
            \<lparr>players := (players (fields s))
                [nat (currentPlayerIndex (fields s)) := player\<lparr>hand := removeAt i (hand player)\<rparr>],
             discardPile := discardPile (fields s) @ [hand player ! i],
             winnerId := Some (player_id player),
             lastAction := name player @ '' wins! '' @ glyph_party\<rparr>)
         (previousState s)"
  | player i t msg x where
      "playerAt (players (fields s)) (currentPlayerIndex (fields s)) = Some player"
      "findIndex (\<lambda>c. card_id c = cardId) (hand player) = Some i"
      "removeAt i (hand player) \<noteq> []"
      "x = currentPlayerIndex (fields s) \<or> (0 \<le> x \<and> x < int (length (players (fields s))))"
      "s' = GameState
         ((fst (applyEffect rng (nat (currentPlayerIndex (fields s))) (hand player ! i)
             ((fields s)
                \<lparr>players := (players (fields s))
                    [nat (currentPlayerIndex (fields s)) :=
                       player\<lparr>hand := removeAt i (hand player)\<rparr>],
                 discardPile := discardPile (fields s) @ [hand player ! i]\<rparr>) t))
            \<lparr>lastAction := msg, currentPlayerIndex := x\<rparr>)
         (previousState s)"
proof (cases "truthy (winnerId (fields s))")
  case True
  with assms have "s' = s" by (simp add: playCard_def)
  then show thesis by (rule that(1))
next
  case live: False
  show thesis
  proof (cases "playerAt (players (fields s)) (currentPlayerIndex (fields s))")
    case None
    with live assms show thesis by (simp add: playCard_def Let_def)
  next
    case (Some player)
    show thesis
    proof (cases "findIndex (\<lambda>c. card_id c = cardId) (hand player)")
      case None
      with live Some assms have "s' = s" by (simp add: playCard_def Let_def)
      then show thesis by (rule that(1))
    next
      case found: (Some i)
      show thesis
      proof (cases "removeAt i (hand player) = []")
        case True
        from playCard_win_result [OF live Some found True, of rng] assms True
        have "s' = GameState
         ((fields s)
            \<lparr>players := (players (fields s))
                [nat (currentPlayerIndex (fields s)) := player\<lparr>hand := removeAt i (hand player)\<rparr>],
             discardPile := discardPile (fields s) @ [hand player ! i],
             winnerId := Some (player_id player),
             lastAction := name player @ '' wins! '' @ glyph_party\<rparr>)
         (previousState s)" by simp
        with Some found True show thesis by (rule that(2))
      next
        case False
        define idx where "idx = nat (currentPlayerIndex (fields s))"
        define g1 where "g1 = (fields s)
          \<lparr>players := (players (fields s))[idx := player\<lparr>hand := removeAt i (hand player)\<rparr>],
           discardPile := discardPile (fields s) @ [hand player ! i]\<rparr>"
        define t where "t = name player @ '' played '' @ rank_str (rank (hand player ! i))
             @ suit_str (suit (hand player ! i))"
        obtain g2 msg steps where
          eff: "applyEffect rng idx (hand player ! i) g1 t = (g2, msg, steps)"
          by (cases "applyEffect rng idx (hand player ! i) g1 t") auto
        have res: "playCard rng s cardId =
          (if steps > 0
           then withPrevious (previousState s) (advanceTurn (g2\<lparr>lastAction := msg\<rparr>) steps)
           else Inr (GameState (g2\<lparr>lastAction := msg\<rparr>) (previousState s)))"
          using playCard_effect_result [OF live Some found False] eff
          unfolding g1_def idx_def t_def by simp
        have g2: "g2 = fst (applyEffect rng idx (hand player ! i) g1 t)" using eff by simp
        from Some have idx: "idx < length (players (fields s))"
          by (simp add: playerAt_Some idx_def)
        have len: "length (players g2) = length (players (fields s))"
          unfolding g2 applyEffect_length_players by (simp add: g1_def)
        have cur: "currentPlayerIndex g2 = currentPlayerIndex (fields s)"
          unfolding g2 applyEffect_currentPlayerIndex by (simp add: g1_def)
        from len idx have ne: "players (g2\<lparr>lastAction := msg\<rparr>) \<noteq> []" by auto
        have "\<exists>x. (x = currentPlayerIndex (fields s) \<or>
                (0 \<le> x \<and> x < int (length (players (fields s))))) \<and>
            s' = GameState (g2\<lparr>lastAction := msg, currentPlayerIndex := x\<rparr>) (previousState s)"
        proof (cases "steps > 0")
          case True
          let ?x = "(currentPlayerIndex g2 + direction g2 * steps) mod int (length (players g2))"
          from True res assms have
            "s' = GameState (g2\<lparr>lastAction := msg, currentPlayerIndex := ?x\<rparr>) (previousState s)"
            by (auto simp: advanceTurn_Inr [OF ne] withPrevious_def)
          moreover from idx have "0 < int (length (players (fields s)))" by auto
          then have "0 \<le> ?x \<and> ?x < int (length (players (fields s)))"
            unfolding len by simp
          ultimately show ?thesis by blast
        next
          case False
          with res assms have "s' = GameState (g2\<lparr>lastAction := msg\<rparr>) (previousState s)" by simp
          then have "s' = GameState (g2\<lparr>lastAction := msg,
              currentPlayerIndex := currentPlayerIndex (fields s)\<rparr>) (previousState s)"
            using cur by (cases g2) simp
          then show ?thesis by blast
        qed
        then obtain x where x: "x = currentPlayerIndex (fields s) \<or>
                (0 \<le> x \<and> x < int (length (players (fields s))))"
          and s': "s' = GameState (g2\<lparr>lastAction := msg, currentPlayerIndex := x\<rparr>)
                (previousState s)" by blast
        from Some found False x s' [unfolded g2 g1_def idx_def]
        show thesis by (rule that(3))
      qed
    qed
  qed
qed

lemma playCard_returns:
  assumes "truthy (winnerId (fields s)) \<or>
     playerAt (players (fields s)) (currentPlayerIndex (fields s)) \<noteq> None"
  shows "\<exists>s'. playCard rng s cardId = Inr s'"
proof (cases "truthy (winnerId (fields s))")
  case True
  then show ?thesis by (simp add: playCard_def)
next
  case live: False
  with assms obtain player where
    pl: "playerAt (players (fields s)) (currentPlayerIndex (fields s)) = Some player" by auto
  show ?thesis
  proof (cases "findIndex (\<lambda>c. card_id c = cardId) (hand player)")
    case None
    with live pl show ?thesis by (simp add: playCard_def Let_def)
  next
    case (Some i)
    from playCard_found [OF live pl Some] show ?thesis by blast
  qed
qed

lemma playCard_keeps_undo:
  assumes "playCard rng s cardId = Inr s'"
  shows "previousState s' = previousState s \<and> canUndo (fields s') = canUndo (fields s)"
  using assms
  by (cases rule: playCard_shape) (simp_all add: applyEffect_canUndo)

subsection \<open>Drawing\<close>

lemma drawLoop_facts:
  "drawLoop rng k n (dk, dp, h, a) = (dk', dp', h', a') \<Longrightarrow>
     a' = a + min n (length dk + (length dp - 1)) \<and>
     length h' = length h + min n (length dk + (length dp - 1)) \<and>
     length dk' + length dp' + length h' = length dk + length dp + length h \<and>
     dp' = (if length dk < n \<and> 1 < length dp then [last dp] else dp)"
proof (induction n arbitrary: k dk dp h a)
  case 0
  then show ?case by simp
next
  case (Suc n)
  show ?case
  proof (cases "dk = []")
    case False
    with Suc.prems have
      "drawLoop rng k n (butlast dk, dp, h @ [last dk], a + 1) = (dk', dp', h', a')" by simp
    from Suc.IH [OF this] False show ?thesis
      by (cases dk rule: rev_cases) (auto simp: min_def)
  next
    case True
    show ?thesis
    proof (cases "1 < length dp")
      case False
      with True Suc.prems show ?thesis by auto
    next
      case many: True
      define dk1 where "dk1 = shuffleDeck rng k (butlast dp)"
      have len1: "length dk1 = length dp - 1"
        by (simp add: dk1_def length_shuffleDeck)
      with many have ne: "dk1 \<noteq> []" by auto
      from True many ne Suc.prems have
        "drawLoop rng (k + (length (butlast dp) - 1)) n
           (butlast dk1, [last dp], h @ [last dk1], a + 1) = (dk', dp', h', a')"
        by (simp add: Let_def dk1_def)
      from Suc.IH [OF this] True many len1 show ?thesis
        by (auto simp: min_def)
    qed
  qed
qed

lemma drawCard_result:
  assumes live: "\<not> truthy (winnerId (fields s))"
    and pl: "playerAt (players (fields s)) (currentPlayerIndex (fields s)) = Some player"
    and loop: "drawLoop rng 0
        (nat (if pendingPickup (fields s) > 0 then pendingPickup (fields s) else 1))
        (deck (fields s), discardPile (fields s), hand player, 0) = (dk, dp, h, a)"
  shows "drawCard rng s =
     Inr (GameState
       ((fields s)
          \<lparr>deck := dk, discardPile := dp,
           players := (players (fields s))
              [nat (currentPlayerIndex (fields s)) :=
                 player\<lparr>hand := (if \<not> isBot player then sortHand h else h)\<rparr>],
           lastAction :=
             (if pendingPickup (fields s) > 0
              then name player @ '' had to pick up '' @ show_nat a @ ''! '' @ glyph_sweat
              else name player @ '' drew a card''),
           pendingPickup := 0,
           currentPlayerIndex :=
             (currentPlayerIndex (fields s) + direction (fields s) * 1)
               mod int (length (players (fields s)))\<rparr>)
       (previousState s))"
proof -
  from pl have ne: "players (fields s) \<noteq> []" by (auto simp: playerAt_Some)
  show ?thesis
    using live pl loop ne
    by (simp add: drawCard_def Let_def advanceTurn_Inr withPrevious_def)
qed

lemma drawCard_flags:
  assumes "drawCard rng s = Inr s'"
  shows "pendingSuitChoice (fields s') = pendingSuitChoice (fields s) \<and>
     pendingSwap (fields s') = pendingSwap (fields s) \<and> previousState s' = previousState s"
proof (cases "truthy (winnerId (fields s))")
  case True
  with assms show ?thesis by (simp add: drawCard_def)
next
  case live: False
  show ?thesis
  proof (cases "playerAt (players (fields s)) (currentPlayerIndex (fields s))")
    case None
    with live assms show ?thesis by (simp add: drawCard_def Let_def)
  next
    case (Some player)
    obtain dk dp h a where loop: "drawLoop rng 0
        (nat (if pendingPickup (fields s) > 0 then pendingPickup (fields s) else 1))
        (deck (fields s), discardPile (fields s), hand player, 0) = (dk, dp, h, a)"
      by (cases "drawLoop rng 0
        (nat (if pendingPickup (fields s) > 0 then pendingPickup (fields s) else 1))
        (deck (fields s), discardPile (fields s), hand player, 0)") auto
    from assms show ?thesis
      unfolding drawCard_result [OF live Some loop] by auto
  qed
qed

subsection \<open>Counting cards\<close>

lemma handTotal_update:
  "i < length ps \<Longrightarrow>
     handTotal (ps[i := p]) + length (hand (ps ! i)) = handTotal ps + length (hand p)"
  by (induction ps arbitrary: i) (auto simp: handTotal_def split: nat.splits)

lemma handTotal_same_length:
  "i < length ps \<Longrightarrow> length (hand p) = length (hand (ps ! i)) \<Longrightarrow>
     handTotal (ps[i := p]) = handTotal ps"
  using handTotal_update [of i ps p] by simp

lemma handTotal_swap:
  assumes "i < length ps" "j < length ps"
    and "hand a = hand (ps ! j)" "hand b = hand (ps ! i)"
  shows "handTotal (ps[i := a, j := b]) = handTotal ps"
proof (cases "i = j")
  case True
  with assms show ?thesis by (simp add: handTotal_same_length)
next
  case False
  from assms(1) have 1: "handTotal (ps[i := a]) + length (hand (ps ! i))
      = handTotal ps + length (hand a)" by (rule handTotal_update)
  from assms(2) have "j < length (ps[i := a])" by simp
  from handTotal_update [OF this, of b] False
  have 2: "handTotal (ps[i := a, j := b]) + length (hand (ps ! j))
      = handTotal (ps[i := a]) + length (hand b)" by simp
  from 1 2 assms(3,4) show ?thesis by simp
qed

lemma applyEffect_handTotal:
  assumes idx: "idx < length (players g)"
  shows "handTotal (players (fst (applyEffect rng idx c g t))) = handTotal (players g)"
proof (cases "rank c = King \<and> \<not> isTwo c \<and> \<not> length (players g) > 2")
  case False
  then have "players (fst (applyEffect rng idx c g t)) = players g"
    by (auto simp add: applyEffect_def Let_def isBlackJack_def split: option.splits)
  then show ?thesis by simp
next
  case True
  show ?thesis
  proof (cases "findIndex (\<lambda>p. player_id p \<noteq> player_id (players g ! idx)) (players g)")
    case None
    with True have "players (fst (applyEffect rng idx c g t)) = players g"
      by (simp add: applyEffect_def Let_def isBlackJack_def)
    then show ?thesis by simp
  next
    case (Some other)
    from findIndex_Some [OF Some] have o: "other < length (players g)" by simp
    from Some True have "players (fst (applyEffect rng idx c g t)) =
       (players g)[idx := (players g ! idx)\<lparr>hand := hand (players g ! other)\<rparr>,
                   other := (players g ! other)\<lparr>hand := hand (players g ! idx)\<rparr>]"
      by (simp add: applyEffect_def Let_def isBlackJack_def)
    with handTotal_swap [OF idx o] show ?thesis by simp
  qed
qed

lemma discard_cardTotal:
  assumes pl: "playerAt (players g) (currentPlayerIndex g) = Some player"
    and found: "findIndex P (hand player) = Some i"
  shows "cardTotal (g\<lparr>players := (players g)
            [nat (currentPlayerIndex g) := player\<lparr>hand := removeAt i (hand player)\<rparr>],
          discardPile := discardPile g @ [c]\<rparr>) = cardTotal g"
proof -
  from pl have idx: "nat (currentPlayerIndex g) < length (players g)"
    and p: "player = players g ! nat (currentPlayerIndex g)"
    by (simp_all add: playerAt_Some)
  from findIndex_Some [OF found] have i: "i < length (hand player)" by simp
  from handTotal_update [OF idx, of "player\<lparr>hand := removeAt i (hand player)\<rparr>"]
    length_removeAt [OF i] p
  have "Suc (handTotal ((players g)
      [nat (currentPlayerIndex g) := player\<lparr>hand := removeAt i (hand player)\<rparr>]))
      = handTotal (players g)" by simp
  then show ?thesis by (simp add: cardTotal_def)
qed

lemma playCard_cardTotal:
  assumes "playCard rng s cardId = Inr s'"
  shows "cardTotal (fields s') = cardTotal (fields s) \<and> previousState s' = previousState s"
  using assms
proof (cases rule: playCard_shape)
  case same
  then show ?thesis by simp
next
  case (win player i)
  from discard_cardTotal [OF win(1,2), of "hand player ! i"] show ?thesis
    unfolding win(4) by (simp add: cardTotal_def)
next
  case (effect player i t msg x)
  let ?g1 = "(fields s)
      \<lparr>players := (players (fields s))
          [nat (currentPlayerIndex (fields s)) := player\<lparr>hand := removeAt i (hand player)\<rparr>],
       discardPile := discardPile (fields s) @ [hand player ! i]\<rparr>"
  from effect(1) have "nat (currentPlayerIndex (fields s)) < length (players ?g1)"
    by (simp add: playerAt_Some)
  from applyEffect_handTotal [OF this, of rng "hand player ! i" t]
  have "cardTotal (fst (applyEffect rng (nat (currentPlayerIndex (fields s)))
      (hand player ! i) ?g1 t)) = cardTotal ?g1"
    by (simp add: cardTotal_def applyEffect_deck applyEffect_discardPile)
  also have "\<dots> = cardTotal (fields s)"
    by (rule discard_cardTotal [OF effect(1,2)])
  finally show ?thesis unfolding effect(5) by (simp add: cardTotal_def)
qed

lemma drawCard_cardTotal:
  assumes "drawCard rng s = Inr s'"
  shows "cardTotal (fields s') = cardTotal (fields s) \<and> previousState s' = previousState s"
proof (cases "truthy (winnerId (fields s))")
  case True
  with assms show ?thesis by (simp add: drawCard_def)
next
  case live: False
  show ?thesis
  proof (cases "playerAt (players (fields s)) (currentPlayerIndex (fields s))")
    case None
    with live assms show ?thesis by (simp add: drawCard_def Let_def)
  next
    case (Some player)
    obtain dk dp h a where loop: "drawLoop rng 0
        (nat (if pendingPickup (fields s) > 0 then pendingPickup (fields s) else 1))
        (deck (fields s), discardPile (fields s), hand player, 0) = (dk, dp, h, a)"
      by (cases "drawLoop rng 0
        (nat (if pendingPickup (fields s) > 0 then pendingPickup (fields s) else 1))
        (deck (fields s), discardPile (fields s), hand player, 0)") auto
    from Some have idx: "nat (currentPlayerIndex (fields s)) < length (players (fields s))"
      and p: "player = players (fields s) ! nat (currentPlayerIndex (fields s))"
      by (simp_all add: playerAt_Some)
    from drawLoop_facts [OF loop] have
      tot: "length dk + length dp + length h =
        length (deck (fields s)) + length (discardPile (fields s)) + length (hand player)"
      by blast
    from handTotal_update [OF idx,
        of "player\<lparr>hand := (if \<not> isBot player then sortHand h else h)\<rparr>"] p
    have "handTotal ((players (fields s))[nat (currentPlayerIndex (fields s)) :=
          player\<lparr>hand := (if \<not> isBot player then sortHand h else h)\<rparr>]) + length (hand player)
        = handTotal (players (fields s)) + length h"
      by (simp add: length_sortHand)
    with tot assms show ?thesis
      unfolding drawCard_result [OF live Some loop]
      by (auto simp: cardTotal_def)
  qed
qed

subsection \<open>The other calls\<close>

lemma performBotTurn_cases:
  assumes "performBotTurn rng s = Inr s'"
  shows "s' = s \<or> (\<exists>rng' cardId. playCard rng' s cardId = Inr s') \<or>
     (\<exists>rng'. drawCard rng' s = Inr s')"
  using assms
  by (auto simp: performBotTurn_def split: if_splits sum.splits prod.splits BotDecision.splits)

lemma chooseSuit_frame:
  assumes "chooseSuit s x = Inr s'"
  shows "deck (fields s') = deck (fields s) \<and> discardPile (fields s') = discardPile (fields s) \<and>
     players (fields s') = players (fields s) \<and> previousState s' = previousState s \<and>
     (pendingSuitChoice (fields s') \<longrightarrow> pendingSuitChoice (fields s)) \<and>
     pendingSwap (fields s') = pendingSwap (fields s)"
  using assms
  by (auto simp: chooseSuit_def Let_def advanceTurn_def withPrevious_def split: if_splits)

lemma swapWith_frame:
  assumes "swapWith s target = Inr s'"
  shows "deck (fields s') = deck (fields s) \<and> discardPile (fields s') = discardPile (fields s) \<and>
     handTotal (players (fields s')) = handTotal (players (fields s)) \<and>
     previousState s' = previousState s \<and>
     pendingSuitChoice (fields s') = pendingSuitChoice (fields s) \<and>
     (pendingSwap (fields s') \<longrightarrow> pendingSwap (fields s))"
proof (cases "pendingSwap (fields s)")
  case False
  with assms show ?thesis by (simp add: swapWith_def)
next
  case sw: True
  show ?thesis
  proof (cases "findIndex (\<lambda>p. player_id p = target) (players (fields s))")
    case None
    with sw assms show ?thesis by (simp add: swapWith_def Let_def)
  next
    case (Some j)
    from findIndex_Some [OF Some] have j: "j < length (players (fields s))" by simp
    show ?thesis
    proof (cases "playerAt (players (fields s)) (currentPlayerIndex (fields s))")
      case None
      with sw Some assms show ?thesis by (simp add: swapWith_def Let_def)
    next
      case pl: (Some cur)
      from pl have idx: "nat (currentPlayerIndex (fields s)) < length (players (fields s))"
        and p: "cur = players (fields s) ! nat (currentPlayerIndex (fields s))"
        by (simp_all add: playerAt_Some)
      have "handTotal ((players (fields s))
          [nat (currentPlayerIndex (fields s)) := cur\<lparr>hand := hand (players (fields s) ! j)\<rparr>,
           j := (players (fields s) ! j)\<lparr>hand := hand cur\<rparr>]) = handTotal (players (fields s))"
        using handTotal_swap [OF idx j] p by simp
      with sw Some pl assms idx show ?thesis
        by (auto simp: swapWith_def Let_def advanceTurn_def withPrevious_def split: if_splits)
    qed
  qed
qed

lemma botChooseSuit_cases:
  "botChooseSuit s = Inr s' \<Longrightarrow> \<exists>x. chooseSuit s x = Inr s'"
  by (auto simp: botChooseSuit_def Let_def split: option.splits)

lemma botChooseSwap_cases:
  "botChooseSwap s = Inr s' \<Longrightarrow> \<exists>target. swapWith s target = Inr s'"
  by (auto simp: botChooseSwap_def Let_def split: option.splits list.splits)

lemma display_frame:
  "clearPeek s = Inr s' \<or> confirmPassScreen s = Inr s' \<or> triggerPassScreen s = Inr s' \<Longrightarrow>
     deck (fields s') = deck (fields s) \<and> discardPile (fields s') = discardPile (fields s) \<and>
     players (fields s') = players (fields s) \<and> previousState s' = previousState s \<and>
     pendingSuitChoice (fields s') = pendingSuitChoice (fields s) \<and>
     pendingSwap (fields s') = pendingSwap (fields s) \<and>
     currentPlayerIndex (fields s') = currentPlayerIndex (fields s)"
  by (auto simp: clearPeek_def confirmPassScreen_def triggerPassScreen_def Let_def
      split: option.splits)

lemma saveStateForUndo_fields:
  "fields (saveStateForUndo S) = (fields S)\<lparr>canUndo := True\<rparr>"
  "previousState (saveStateForUndo S) = Some (GameState ((fields S)\<lparr>canUndo := False\<rparr>) None)"
  by (simp_all add: saveStateForUndo_def Let_def)

subsection \<open>The suit table of the bot\<close>

lemma countSuits_snoc: "countSuits (h @ [c]) = bump (suit c) (countSuits h)"
  by (simp add: countSuits_def)

lemma bump_keys_old: "s \<in> set (map fst m) \<Longrightarrow> map fst (bump s m) = map fst m"
proof (induction m)
  case Nil
  then show ?case by simp
next
  case (Cons e m)
  obtain k n where e: "e = (k, n)" by (cases e)
  show ?case
  proof (cases "k = s")
    case True
    with e show ?thesis by simp
  next
    case False
    with Cons.prems e have "s \<in> set (map fst m)" by auto
    from Cons.IH [OF this] False e show ?thesis by simp
  qed
qed

lemma bump_keys_new: "s \<notin> set (map fst m) \<Longrightarrow> map fst (bump s m) = map fst m @ [s]"
  by (induction m) auto

lemma bump_keys:
  "map fst (bump s m) = (if s \<in> set (map fst m) then map fst m else map fst m @ [s])"
  by (simp add: bump_keys_old bump_keys_new)

lemma bump_map_of:
  "map_of (bump s m) k =
     (if k = s then Some (case map_of m s of None \<Rightarrow> 1 | Some n \<Rightarrow> n + 1) else map_of m k)"
  by (induction m) auto

lemma suitCount_snoc:
  "suitCount (h @ [c]) k = suitCount h k + (if suit c = k then 1 else 0)"
  by (simp add: suitCount_def)

lemma firstSeen_less: "firstSeen h k < length h \<longleftrightarrow> 0 < suitCount h k"
  by (induction h) (auto simp: firstSeen_def suitCount_def)

lemma firstSeen_snoc:
  "firstSeen (h @ [c]) k =
     (if 0 < suitCount h k then firstSeen h k
      else if suit c = k then length h else Suc (length h))"
proof (cases "0 < suitCount h k")
  case True
  then obtain x where x: "x \<in> set h" "\<not> suit x \<noteq> k"
    by (auto simp: suitCount_def filter_empty_conv)
  have "takeWhile (\<lambda>c. suit c \<noteq> k) (h @ [c]) = takeWhile (\<lambda>c. suit c \<noteq> k) h"
    using x by (rule takeWhile_append1)
  then show ?thesis using True by (simp add: firstSeen_def)
next
  case False
  then have "\<forall>x\<in>set h. suit x \<noteq> k"
    by (auto simp: suitCount_def filter_empty_conv)
  then show ?thesis using False by (simp add: firstSeen_def)
qed

text \<open>The table of \<open>countSuits\<close>: its keys are the suits of the hand in the order of their
  first cards, its values their counts.\<close>

lemma countSuits_table:
  "distinct (map fst (countSuits h)) \<and>
   set (map fst (countSuits h)) = {k. 0 < suitCount h k} \<and>
   (\<forall>k\<in>set (map fst (countSuits h)). map_of (countSuits h) k = Some (int (suitCount h k))) \<and>
   sorted_wrt (\<lambda>a b. firstSeen h a < firstSeen h b) (map fst (countSuits h))"
proof (induction h rule: rev_induct)
  case Nil
  then show ?case by (simp add: countSuits_def suitCount_def)
next
  case (snoc c h)
  let ?m = "countSuits h"
  let ?s = "suit c"
  from snoc have d: "distinct (map fst ?m)"
    and ks: "set (map fst ?m) = {k. 0 < suitCount h k}"
    and vs: "\<forall>k\<in>set (map fst ?m). map_of ?m k = Some (int (suitCount h k))"
    and so: "sorted_wrt (\<lambda>a b. firstSeen h a < firstSeen h b) (map fst ?m)"
    by blast+
  have keys: "map fst (countSuits (h @ [c])) =
      (if ?s \<in> set (map fst ?m) then map fst ?m else map fst ?m @ [?s])"
    by (simp only: countSuits_snoc bump_keys)
  have 1: "distinct (map fst (countSuits (h @ [c])))"
    using d unfolding keys by simp
  have 2: "set (map fst (countSuits (h @ [c]))) = {k. 0 < suitCount (h @ [c]) k}"
    unfolding keys using ks by (auto simp: suitCount_snoc)
  have 3: "\<forall>k\<in>set (map fst (countSuits (h @ [c]))).
      map_of (countSuits (h @ [c])) k = Some (int (suitCount (h @ [c]) k))"
  proof
    fix k assume k: "k \<in> set (map fst (countSuits (h @ [c])))"
    show "map_of (countSuits (h @ [c])) k = Some (int (suitCount (h @ [c]) k))"
    proof (cases "k = ?s")
      case True
      show ?thesis
      proof (cases "?s \<in> set (map fst ?m)")
        case True
        with vs have "map_of ?m ?s = Some (int (suitCount h ?s))" by blast
        with \<open>k = ?s\<close> show ?thesis
          by (simp add: countSuits_snoc bump_map_of suitCount_snoc)
      next
        case False
        then have "map_of ?m ?s = None" by (simp add: map_of_eq_None_iff)
        moreover from False ks have "suitCount h ?s = 0" by auto
        ultimately show ?thesis using \<open>k = ?s\<close>
          by (simp add: countSuits_snoc bump_map_of suitCount_snoc)
      qed
    next
      case False
      with k have "k \<in> set (map fst ?m)" unfolding keys by (auto split: if_splits)
      with vs have "map_of ?m k = Some (int (suitCount h k))" by blast
      with False show ?thesis
        by (simp add: countSuits_snoc bump_map_of suitCount_snoc)
    qed
  qed
  have old: "\<And>a. a \<in> set (map fst ?m) \<Longrightarrow> firstSeen (h @ [c]) a = firstSeen h a"
    using ks by (auto simp: firstSeen_snoc)
  have so': "sorted_wrt (\<lambda>a b. firstSeen (h @ [c]) a < firstSeen (h @ [c]) b) (map fst ?m)"
    using so old by (auto simp: sorted_wrt_iff_nth_less)
  have 4: "sorted_wrt (\<lambda>a b. firstSeen (h @ [c]) a < firstSeen (h @ [c]) b)
      (map fst (countSuits (h @ [c])))"
  proof (cases "?s \<in> set (map fst ?m)")
    case True
    then show ?thesis unfolding keys using so' by simp
  next
    case False
    with ks have new: "firstSeen (h @ [c]) ?s = length h" by (auto simp: firstSeen_snoc)
    have "\<forall>a\<in>set (map fst ?m). firstSeen (h @ [c]) a < firstSeen (h @ [c]) ?s"
    proof
      fix a assume a: "a \<in> set (map fst ?m)"
      with ks have "0 < suitCount h a" by auto
      then have "firstSeen h a < length h" by (simp add: firstSeen_less)
      with old [OF a] new show "firstSeen (h @ [c]) a < firstSeen (h @ [c]) ?s" by simp
    qed
    with False so' show ?thesis unfolding keys by (simp add: sorted_wrt_append)
  qed
  from 1 2 3 4 show ?case by blast
qed

lemma bestLoop_first_max:
  "bestLoop es (b, mx) = (b', mx') \<Longrightarrow>
     (\<forall>e\<in>set es. snd e \<le> mx') \<and> mx \<le> mx' \<and>
     (((b', mx') = (b, mx)) \<or>
      (\<exists>i<length es. es ! i = (b', mx') \<and> mx < mx' \<and> (\<forall>j<i. snd (es ! j) < mx')))"
proof (induction es arbitrary: b mx)
  case Nil
  then show ?case by simp
next
  case (Cons e es)
  obtain s n where e: "e = (s, n)" by (cases e)
  show ?case
  proof (cases "n > mx")
    case True
    with Cons.prems e have "bestLoop es (s, n) = (b', mx')" by simp
    from Cons.IH [OF this] have all: "\<forall>e\<in>set es. snd e \<le> mx'" and le: "n \<le> mx'"
      and alt: "(b', mx') = (s, n) \<or>
        (\<exists>i<length es. es ! i = (b', mx') \<and> n < mx' \<and> (\<forall>j<i. snd (es ! j) < mx'))"
      by blast+
    from alt have "\<exists>i<length (e # es). (e # es) ! i = (b', mx') \<and> mx < mx' \<and>
        (\<forall>j<i. snd ((e # es) ! j) < mx')"
    proof
      assume "(b', mx') = (s, n)"
      with True e have "(e # es) ! 0 = (b', mx') \<and> mx < mx'" by simp
      then show ?thesis by (intro exI [of _ 0]) simp
    next
      assume "\<exists>i<length es. es ! i = (b', mx') \<and> n < mx' \<and> (\<forall>j<i. snd (es ! j) < mx')"
      then obtain i where i: "i < length es" "es ! i = (b', mx')" "n < mx'"
        "\<forall>j<i. snd (es ! j) < mx'" by blast
      have "\<forall>j<Suc i. snd ((e # es) ! j) < mx'"
        using i(3,4) e by (auto simp: nth_Cons split: nat.splits)
      with i True show ?thesis by (intro exI [of _ "Suc i"]) auto
    qed
    with all le True e show ?thesis by auto
  next
    case False
    with Cons.prems e have "bestLoop es (b, mx) = (b', mx')" by simp
    from Cons.IH [OF this] have all: "\<forall>e\<in>set es. snd e \<le> mx'" and le: "mx \<le> mx'"
      and alt: "(b', mx') = (b, mx) \<or>
        (\<exists>i<length es. es ! i = (b', mx') \<and> mx < mx' \<and> (\<forall>j<i. snd (es ! j) < mx'))"
      by blast+
    from alt have "(b', mx') = (b, mx) \<or>
       (\<exists>i<length (e # es). (e # es) ! i = (b', mx') \<and> mx < mx' \<and>
        (\<forall>j<i. snd ((e # es) ! j) < mx'))"
    proof
      assume "(b', mx') = (b, mx)"
      then show ?thesis by simp
    next
      assume "\<exists>i<length es. es ! i = (b', mx') \<and> mx < mx' \<and> (\<forall>j<i. snd (es ! j) < mx')"
      then obtain i where i: "i < length es" "es ! i = (b', mx')" "mx < mx'"
        "\<forall>j<i. snd (es ! j) < mx'" by blast
      have "\<forall>j<Suc i. snd ((e # es) ! j) < mx'"
        using i(3,4) e False by (auto simp: nth_Cons split: nat.splits)
      with i have "\<exists>i<length (e # es). (e # es) ! i = (b', mx') \<and> mx < mx' \<and>
        (\<forall>j<i. snd ((e # es) ! j) < mx')" by (intro exI [of _ "Suc i"]) auto
      then show ?thesis ..
    qed
    with all le False e show ?thesis by auto
  qed
qed

lemma bestSuitOf_empty: "bestSuitOf [] = Hearts"
  by (simp add: bestSuitOf_def countSuits_def)

lemma bestSuitOf_first_max:
  assumes ne: "h \<noteq> []"
  shows "0 < suitCount h (bestSuitOf h) \<and>
     (\<forall>x. suitCount h x \<le> suitCount h (bestSuitOf h)) \<and>
     (\<forall>x. x \<noteq> bestSuitOf h \<and> suitCount h x = suitCount h (bestSuitOf h) \<longrightarrow>
          firstSeen h (bestSuitOf h) < firstSeen h x)"
proof -
  let ?es = "countSuits h"
  note tab = countSuits_table [of h]
  from tab have d: "distinct (map fst ?es)"
    and ks: "set (map fst ?es) = {k. 0 < suitCount h k}"
    and vs: "\<forall>k\<in>set (map fst ?es). map_of ?es k = Some (int (suitCount h k))"
    and so: "sorted_wrt (\<lambda>a b. firstSeen h a < firstSeen h b) (map fst ?es)"
    by blast+
  have entry: "\<And>k. 0 < suitCount h k \<Longrightarrow> (k, int (suitCount h k)) \<in> set ?es"
  proof -
    fix k assume "0 < suitCount h k"
    with ks have "k \<in> set (map fst ?es)" by simp
    with vs have "map_of ?es k = Some (int (suitCount h k))" by blast
    then show "(k, int (suitCount h k)) \<in> set ?es" by (rule map_of_SomeD)
  qed
  have val: "\<And>k n. (k, n) \<in> set ?es \<Longrightarrow> n = int (suitCount h k) \<and> 0 < suitCount h k"
  proof -
    fix k n assume kn: "(k, n) \<in> set ?es"
    then have k: "k \<in> set (map fst ?es)" by force
    with vs have "map_of ?es k = Some (int (suitCount h k))" by blast
    moreover from d kn have "map_of ?es k = Some n" by simp
    ultimately show "n = int (suitCount h k) \<and> 0 < suitCount h k" using k ks by simp
  qed
  obtain b mx where res: "bestLoop ?es (Hearts, 0) = (b, mx)"
    by (cases "bestLoop ?es (Hearts, 0)") auto
  then have b: "bestSuitOf h = b" by (simp add: bestSuitOf_def)
  from bestLoop_first_max [OF res] have all: "\<forall>e\<in>set ?es. snd e \<le> mx"
    and alt: "(b, mx) = (Hearts, 0) \<or>
      (\<exists>i<length ?es. ?es ! i = (b, mx) \<and> 0 < mx \<and> (\<forall>j<i. snd (?es ! j) < mx))"
    by blast+
  from ne obtain c cs where "h = c # cs" by (cases h) auto
  then have c: "0 < suitCount h (suit c)" by (simp add: suitCount_def)
  from entry [OF c] all have "snd (suit c, int (suitCount h (suit c))) \<le> mx" by blast
  with c have "0 < mx" by simp
  with alt obtain i where i: "i < length ?es" "?es ! i = (b, mx)"
    "\<forall>j<i. snd (?es ! j) < mx" by auto
  from i(1,2) have "(b, mx) \<in> set ?es" by (metis nth_mem)
  from val [OF this] have mx: "mx = int (suitCount h b)" and pos: "0 < suitCount h b" by simp_all
  have le: "\<forall>x. suitCount h x \<le> suitCount h b"
  proof
    fix x show "suitCount h x \<le> suitCount h b"
    proof (cases "0 < suitCount h x")
      case True
      from entry [OF True] all have "snd (x, int (suitCount h x)) \<le> mx" by blast
      with mx show ?thesis by simp
    next
      case False
      then show ?thesis by simp
    qed
  qed
  have tie: "\<forall>x. x \<noteq> b \<and> suitCount h x = suitCount h b \<longrightarrow> firstSeen h b < firstSeen h x"
  proof (intro allI impI)
    fix x assume x: "x \<noteq> b \<and> suitCount h x = suitCount h b"
    with pos have "0 < suitCount h x" by simp
    from entry [OF this] obtain j where j: "j < length ?es" "?es ! j = (x, int (suitCount h x))"
      by (auto simp: in_set_conv_nth)
    have "\<not> j < i"
    proof
      assume "j < i"
      with i(3) have "snd (?es ! j) < mx" by blast
      with j(2) x mx show False by simp
    qed
    moreover have "j \<noteq> i" using i(2) j(2) x by auto
    ultimately have "i < j" by simp
    with so j(1) have "firstSeen h (map fst ?es ! i) < firstSeen h (map fst ?es ! j)"
      by (simp add: sorted_wrt_iff_nth_less)
    with i(1,2) j show "firstSeen h b < firstSeen h x" by simp
  qed
  from pos le tie show ?thesis unfolding b by blast
qed

subsection \<open>Invariants along the undo chain\<close>

lemma chain_fields: "chain P s \<Longrightarrow> P (fields s)"
  by (cases s) simp

lemma chain_same_previous:
  "chain P s \<Longrightarrow> P (fields s') \<Longrightarrow> previousState s' = previousState s \<Longrightarrow> chain P s'"
  by (cases s; cases s') simp

lemma chain_previous: "chain P s \<Longrightarrow> previousState s = Some p \<Longrightarrow> chain P p"
  by (cases s) simp

lemma chain_saveStateForUndo:
  assumes "\<And>g b. P (g\<lparr>canUndo := b\<rparr>) = P g" and "chain P s"
  shows "chain P (saveStateForUndo s)"
  using assms chain_fields [of P s] by (simp add: saveStateForUndo_def Let_def)

lemma chain_undoLastMove:
  assumes "\<And>g b t. P (g\<lparr>canUndo := b, lastAction := t\<rparr>) = P g"
    and "chain P s" and "undoLastMove s = Some s'"
  shows "chain P s'"
proof -
  from assms(3) obtain prev where prev: "previousState s = Some prev"
    and s': "s' = GameState ((fields prev)
        \<lparr>canUndo := False, lastAction := glyph_return @ '' Move undone!''\<rparr>) None"
    by (auto simp: undoLastMove_def Let_def split: if_splits option.splits)
  from chain_previous [OF assms(2) prev] have "P (fields prev)" by (rule chain_fields)
  with assms(1) show ?thesis unfolding s' by simp
qed

text \<open>
  The step of every invariant below: a property of the fields that each call establishes for
  the state it returns, and that does not depend on \<open>canUndo\<close> and \<open>lastAction\<close>, goes from a
  state and its undo chain to the outcome of a call and its chain. For \<open>playCard\<close> it is only
  asked of the calls \<open>PlayCard\<close> and \<open>PerformBotTurn\<close>.
\<close>

lemma outcome_chain:
  assumes inv: "chain P s" and out: "outcome c s = Some s'"
    and play: "\<And>rng cardId t. (\<exists>r k. c = PlayCard r k) \<or> (\<exists>r. c = PerformBotTurn r) \<Longrightarrow>
        playCard rng s cardId = Inr t \<Longrightarrow> P (fields t)"
    and draw: "\<And>rng t. drawCard rng s = Inr t \<Longrightarrow> P (fields t)"
    and choose: "\<And>x t. chooseSuit s x = Inr t \<Longrightarrow> P (fields t)"
    and swap: "\<And>target t. swapWith s target = Inr t \<Longrightarrow> P (fields t)"
    and display: "\<And>t. clearPeek s = Inr t \<or> confirmPassScreen s = Inr t \<or>
        triggerPassScreen s = Inr t \<Longrightarrow> P (fields t)"
    and undo: "\<And>g b t. P (g\<lparr>canUndo := b, lastAction := t\<rparr>) = P g"
    and save: "\<And>g b. P (g\<lparr>canUndo := b\<rparr>) = P g"
  shows "chain P s'"
proof -
  have keep: "P (fields s') \<Longrightarrow> previousState s' = previousState s \<Longrightarrow> ?thesis"
    using inv by (rule chain_same_previous)
  show ?thesis
  proof (cases c)
    case (PlayCard rng cardId)
    with out have r: "playCard rng s cardId = Inr s'" by (simp add: returned_Some)
    from PlayCard have "(\<exists>r k. c = PlayCard r k) \<or> (\<exists>r. c = PerformBotTurn r)" by blast
    from play [OF this r] playCard_keeps_undo [OF r] show ?thesis by (intro keep) simp_all
  next
    case (DrawCard rng)
    with out have r: "drawCard rng s = Inr s'" by (simp add: returned_Some)
    from draw [OF r] drawCard_flags [OF r] show ?thesis by (intro keep) simp_all
  next
    case (PerformBotTurn rng)
    with out have bt: "performBotTurn rng s = Inr s'" by (simp add: returned_Some)
    from PerformBotTurn have c: "(\<exists>r k. c = PlayCard r k) \<or> (\<exists>r. c = PerformBotTurn r)"
      by blast
    from performBotTurn_cases [OF bt] show ?thesis
    proof (elim disjE exE)
      assume "s' = s"
      with inv show ?thesis by simp
    next
      fix rng' cardId assume r: "playCard rng' s cardId = Inr s'"
      from play [OF c r] playCard_keeps_undo [OF r] show ?thesis by (intro keep) simp_all
    next
      fix rng' assume r: "drawCard rng' s = Inr s'"
      from draw [OF r] drawCard_flags [OF r] show ?thesis by (intro keep) simp_all
    qed
  next
    case (ChooseSuit x)
    with out have r: "chooseSuit s x = Inr s'" by (simp add: returned_Some)
    from choose [OF r] chooseSuit_frame [OF r] show ?thesis by (intro keep) simp_all
  next
    case (SwapWith target)
    with out have r: "swapWith s target = Inr s'" by (simp add: returned_Some)
    from swap [OF r] swapWith_frame [OF r] show ?thesis by (intro keep) simp_all
  next
    case ClearPeek
    with out have "clearPeek s = Inr s'" by (simp add: returned_Some)
    then have r: "clearPeek s = Inr s' \<or> confirmPassScreen s = Inr s' \<or>
        triggerPassScreen s = Inr s'" by simp
    from display [OF r] display_frame [OF r] show ?thesis by (intro keep) simp_all
  next
    case ConfirmPassScreen
    with out have "confirmPassScreen s = Inr s'" by (simp add: returned_Some)
    then have r: "clearPeek s = Inr s' \<or> confirmPassScreen s = Inr s' \<or>
        triggerPassScreen s = Inr s'" by simp
    from display [OF r] display_frame [OF r] show ?thesis by (intro keep) simp_all
  next
    case TriggerPassScreen
    with out have "triggerPassScreen s = Inr s'" by (simp add: returned_Some)
    then have r: "clearPeek s = Inr s' \<or> confirmPassScreen s = Inr s' \<or>
        triggerPassScreen s = Inr s'" by simp
    from display [OF r] display_frame [OF r] show ?thesis by (intro keep) simp_all
  next
    case BotChooseSuit
    with out have "botChooseSuit s = Inr s'" by (simp add: returned_Some)
    from botChooseSuit_cases [OF this] obtain x where r: "chooseSuit s x = Inr s'" by blast
    from choose [OF r] chooseSuit_frame [OF r] show ?thesis by (intro keep) simp_all
  next
    case BotChooseSwap
    with out have "botChooseSwap s = Inr s'" by (simp add: returned_Some)
    from botChooseSwap_cases [OF this] obtain t where r: "swapWith s t = Inr s'" by blast
    from swap [OF r] swapWith_frame [OF r] show ?thesis by (intro keep) simp_all
  next
    case SaveStateForUndo
    with out have s': "s' = saveStateForUndo s" by simp
    show ?thesis unfolding s' using save inv by (rule chain_saveStateForUndo)
  next
    case UndoLastMove
    with out have "undoLastMove s = Some s'" by simp
    with undo inv show ?thesis by (rule chain_undoLastMove)
  qed
qed

lemma createNewGame_state:
  assumes "createNewGame rng avs numPlayers diff gm playerNames = Inr s"
  shows "cardTotal (fields s) = 52 \<and> previousState s = None \<and>
     \<not> pendingSuitChoice (fields s) \<and> \<not> pendingSwap (fields s) \<and> namesPlayer (fields s)"
proof -
  obtain rest ps where deal: "dealLoop gm playerNames avs [0 ..< nat (clampPlayers numPlayers)]
      (shuffleDeck rng 0 createDeck) [] = (rest, ps)"
    by (cases "dealLoop gm playerNames avs [0 ..< nat (clampPlayers numPlayers)]
      (shuffleDeck rng 0 createDeck) []") auto
  from dealLoop_total [OF deal] have tot: "length rest + handTotal ps = 52"
    by (simp add: length_shuffleDeck length_createDeck handTotal_def)
  from dealLoop_length [OF deal] clampPlayers_range [of numPlayers]
  have len: "0 < length ps" by simp
  from assms deal have ne: "rest \<noteq> []"
    by (auto simp: createNewGame_def Let_def split: if_splits)
  then have "Suc (length (butlast rest)) = length rest" by simp
  with assms deal ne tot len show ?thesis
    by (auto simp: createNewGame_def Let_def cardTotal_def namesPlayer_def)
qed

subsection \<open>Card conservation\<close>

lemma outcome_conserved:
  assumes inv: "chain (\<lambda>g. cardTotal g = 52) s" and out: "outcome c s = Some s'"
  shows "chain (\<lambda>g. cardTotal g = 52) s'"
  using inv out
proof (rule outcome_chain)
  fix rng cardId t assume "playCard rng s cardId = Inr t"
  from playCard_cardTotal [OF this] chain_fields [OF inv]
  show "cardTotal (fields t) = 52" by simp
next
  fix rng t assume "drawCard rng s = Inr t"
  from drawCard_cardTotal [OF this] chain_fields [OF inv]
  show "cardTotal (fields t) = 52" by simp
next
  fix x t assume "chooseSuit s x = Inr t"
  from chooseSuit_frame [OF this] chain_fields [OF inv]
  show "cardTotal (fields t) = 52" by (simp add: cardTotal_def)
next
  fix target t assume "swapWith s target = Inr t"
  from swapWith_frame [OF this] chain_fields [OF inv]
  show "cardTotal (fields t) = 52" by (simp add: cardTotal_def)
next
  fix t assume "clearPeek s = Inr t \<or> confirmPassScreen s = Inr t \<or> triggerPassScreen s = Inr t"
  from display_frame [OF this] chain_fields [OF inv]
  show "cardTotal (fields t) = 52" by (simp add: cardTotal_def)
qed (simp_all add: cardTotal_def)

lemma reachable_conserved: "reachable s \<Longrightarrow> chain (\<lambda>g. cardTotal g = 52) s"
proof (induction rule: reachable.induct)
  case (start rng avs numPlayers diff gm playerNames s)
  from createNewGame_state [OF start] show ?case by (cases s) simp
next
  case (step s c s')
  from step.IH step.hyps(2) show ?case by (rule outcome_conserved)
qed

subsection \<open>The same cards throughout\<close>

lemma mset_shuffleLoop: "i < length xs \<Longrightarrow> mset (shuffleLoop rng k i xs) = mset xs"
proof (induction i arbitrary: k xs)
  case 0
  then show ?case by simp
next
  case (Suc i)
  let ?j = "rng k mod (Suc i + 1)"
  have j: "?j < length xs" using Suc.prems by (simp add: less_le_trans [OF mod_less_divisor])
  from j Suc.prems have swap: "mset (xs[Suc i := xs ! ?j, ?j := xs ! Suc i]) = mset xs"
    by (rule mset_swap)
  from Suc.prems have "i < length (xs[Suc i := xs ! ?j, ?j := xs ! Suc i])" by simp
  from Suc.IH [OF this] swap show ?case by (simp add: Let_def)
qed

lemma mset_shuffleDeck: "mset (shuffleDeck rng k xs) = mset xs"
  by (cases "xs = []") (simp_all add: shuffleDeck_def mset_shuffleLoop)

lemma mset_insertBy: "mset (insertBy cmp x xs) = add_mset x (mset xs)"
  by (induction xs) simp_all

lemma mset_sortBy: "mset (sortBy cmp xs) = mset xs"
  by (induction xs) (simp_all add: sortBy_def mset_insertBy)

lemma mset_sortHand: "mset (sortHand xs) = mset xs"
  by (simp add: sortHand_def mset_sortBy)

lemma mset_removeAt: "i < length xs \<Longrightarrow> add_mset (xs ! i) (mset (removeAt i xs)) = mset xs"
proof -
  assume "i < length xs"
  then have "xs = take i xs @ xs ! i # drop (Suc i) xs" by (rule id_take_nth_drop)
  then have "mset xs = mset (take i xs @ xs ! i # drop (Suc i) xs)" by simp
  then show ?thesis by (simp add: removeAt_def)
qed

lemma mset_butlast_last: "xs \<noteq> [] \<Longrightarrow> add_mset (last xs) (mset (butlast xs)) = mset xs"
  by (cases xs rule: rev_cases) simp_all

lemma handCards_update:
  "i < length ps \<Longrightarrow>
     handCards (ps[i := p]) + mset (hand (ps ! i)) = handCards ps + mset (hand p)"
  by (induction ps arbitrary: i) (auto simp: handCards_def split: nat.splits)

lemma handCards_same:
  "i < length ps \<Longrightarrow> hand p = hand (ps ! i) \<Longrightarrow> handCards (ps[i := p]) = handCards ps"
  using handCards_update [of i ps p] by simp

lemma handCards_swap:
  assumes "i < length ps" "j < length ps"
    and "hand a = hand (ps ! j)" "hand b = hand (ps ! i)"
  shows "handCards (ps[i := a, j := b]) = handCards ps"
proof (cases "i = j")
  case True
  with assms show ?thesis by (simp add: handCards_same)
next
  case False
  from assms(1) have 1: "handCards (ps[i := a]) + mset (hand (ps ! i))
      = handCards ps + mset (hand a)" by (rule handCards_update)
  from assms(2) have "j < length (ps[i := a])" by simp
  from handCards_update [OF this, of b] False
  have 2: "handCards (ps[i := a, j := b]) + mset (hand (ps ! j))
      = handCards (ps[i := a]) + mset (hand b)" by simp
  from 2 have "handCards (ps[i := a, j := b]) + mset (hand (ps ! j)) + mset (hand (ps ! i))
      = handCards (ps[i := a]) + mset (hand (ps ! i)) + mset (hand b)" by (simp add: ac_simps)
  also have "\<dots> = handCards ps + mset (hand a) + mset (hand b)" by (simp only: 1)
  finally show ?thesis using assms(3,4) by (simp add: ac_simps)
qed

lemma drawLoop_mset:
  "drawLoop rng k n (dk, dp, h, a) = (dk', dp', h', a') \<Longrightarrow>
     mset dk' + mset dp' + mset h' = mset dk + mset dp + mset h"
proof (induction n arbitrary: k dk dp h a)
  case 0
  then show ?case by simp
next
  case (Suc n)
  show ?case
  proof (cases "dk = []")
    case False
    with Suc.prems have
      "drawLoop rng k n (butlast dk, dp, h @ [last dk], a + 1) = (dk', dp', h', a')" by simp
    from Suc.IH [OF this] mset_butlast_last [OF False] show ?thesis
      by (simp add: ac_simps)
  next
    case True
    show ?thesis
    proof (cases "1 < length dp")
      case False
      with True Suc.prems show ?thesis by auto
    next
      case many: True
      define dk1 where "dk1 = shuffleDeck rng k (butlast dp)"
      have len1: "length dk1 = length dp - 1"
        by (simp add: dk1_def length_shuffleDeck)
      with many have ne: "dk1 \<noteq> []" by auto
      from many have dpne: "dp \<noteq> []" by auto
      from True many ne Suc.prems have
        "drawLoop rng (k + (length (butlast dp) - 1)) n
           (butlast dk1, [last dp], h @ [last dk1], a + 1) = (dk', dp', h', a')"
        by (simp add: Let_def dk1_def)
      from Suc.IH [OF this] have
        "mset dk' + mset dp' + mset h'
           = add_mset (last dk1) (mset (butlast dk1)) + {#last dp#} + mset h"
        by (simp add: ac_simps)
      also have "add_mset (last dk1) (mset (butlast dk1)) = mset (butlast dp)"
        unfolding mset_butlast_last [OF ne] by (simp add: dk1_def mset_shuffleDeck)
      also have "mset (butlast dp) + {#last dp#} = mset dp"
        using mset_butlast_last [OF dpne] by simp
      finally show ?thesis using True by simp
    qed
  qed
qed


lemma hand_newPlayer_mset: "mset (hand (newPlayer gm nms avs j dealt)) = mset dealt"
  by (simp add: newPlayer_def Let_def mset_sortHand)

lemma dealLoop_cards:
  "dealLoop gm nms avs js cards ps = (rest, ps') \<Longrightarrow>
     mset rest + handCards ps' = mset cards + handCards ps"
proof (induction js arbitrary: cards ps)
  case Nil
  then show ?case by simp
next
  case (Cons j js)
  from Cons.prems have "dealLoop gm nms avs js (drop 7 cards)
      (ps @ [newPlayer gm nms avs j (take 7 cards)]) = (rest, ps')" by simp
  from Cons.IH [OF this] have "mset rest + handCards ps' =
      mset (take 7 cards) + mset (drop 7 cards) + handCards ps"
    by (simp add: handCards_def hand_newPlayer_mset ac_simps)
  moreover have "mset (take 7 cards) + mset (drop 7 cards) = mset cards"
    by (simp only: mset_append [symmetric] append_take_drop_id)
  ultimately show ?case by simp
qed

lemma createNewGame_cards:
  assumes "createNewGame rng avs numPlayers diff gm playerNames = Inr s"
  shows "allCards (fields s) = mset createDeck"
proof -
  obtain rest ps where deal: "dealLoop gm playerNames avs [0 ..< nat (clampPlayers numPlayers)]
      (shuffleDeck rng 0 createDeck) [] = (rest, ps)"
    by (cases "dealLoop gm playerNames avs [0 ..< nat (clampPlayers numPlayers)]
      (shuffleDeck rng 0 createDeck) []") auto
  from dealLoop_cards [OF deal] have tot: "mset rest + handCards ps = mset createDeck"
    by (simp add: mset_shuffleDeck handCards_def)
  from assms deal have ne: "rest \<noteq> []"
    by (auto simp: createNewGame_def Let_def split: if_splits)
  from mset_butlast_last [OF ne] tot
  have "mset (butlast rest) + {#last rest#} + handCards ps = mset createDeck" by simp
  with assms deal ne show ?thesis
    by (auto simp: createNewGame_def Let_def allCards_def)
qed

lemma applyEffect_handCards:
  assumes idx: "idx < length (players g)"
  shows "handCards (players (fst (applyEffect rng idx c g t))) = handCards (players g)"
proof (cases "rank c = King \<and> \<not> isTwo c \<and> \<not> length (players g) > 2")
  case False
  then have "players (fst (applyEffect rng idx c g t)) = players g"
    by (auto simp add: applyEffect_def Let_def isBlackJack_def split: option.splits)
  then show ?thesis by simp
next
  case True
  show ?thesis
  proof (cases "findIndex (\<lambda>p. player_id p \<noteq> player_id (players g ! idx)) (players g)")
    case None
    with True have "players (fst (applyEffect rng idx c g t)) = players g"
      by (simp add: applyEffect_def Let_def isBlackJack_def)
    then show ?thesis by simp
  next
    case (Some other)
    from findIndex_Some [OF Some] have o: "other < length (players g)" by simp
    from Some True have "players (fst (applyEffect rng idx c g t)) =
       (players g)[idx := (players g ! idx)\<lparr>hand := hand (players g ! other)\<rparr>,
                   other := (players g ! other)\<lparr>hand := hand (players g ! idx)\<rparr>]"
      by (simp add: applyEffect_def Let_def isBlackJack_def)
    with handCards_swap [OF idx o] show ?thesis by simp
  qed
qed

lemma discard_allCards:
  assumes pl: "playerAt (players g) (currentPlayerIndex g) = Some player"
    and found: "findIndex P (hand player) = Some i"
  shows "allCards (g\<lparr>players := (players g)
            [nat (currentPlayerIndex g) := player\<lparr>hand := removeAt i (hand player)\<rparr>],
          discardPile := discardPile g @ [hand player ! i]\<rparr>) = allCards g"
proof -
  from pl have idx: "nat (currentPlayerIndex g) < length (players g)"
    and p: "player = players g ! nat (currentPlayerIndex g)"
    by (simp_all add: playerAt_Some)
  from findIndex_Some [OF found] have i: "i < length (hand player)" by simp
  from handCards_update [OF idx, of "player\<lparr>hand := removeAt i (hand player)\<rparr>"] p
  have "handCards ((players g)
      [nat (currentPlayerIndex g) := player\<lparr>hand := removeAt i (hand player)\<rparr>])
      + mset (hand player) = handCards (players g) + mset (removeAt i (hand player))"
    by simp
  also have "mset (hand player) = add_mset (hand player ! i) (mset (removeAt i (hand player)))"
    using mset_removeAt [OF i] by simp
  finally have "add_mset (hand player ! i) (handCards ((players g)
      [nat (currentPlayerIndex g) := player\<lparr>hand := removeAt i (hand player)\<rparr>]))
      = handCards (players g)"
    by simp
  then show ?thesis by (simp add: allCards_def)
qed

lemma playCard_allCards:
  assumes "playCard rng s cardId = Inr s'"
  shows "allCards (fields s') = allCards (fields s)"
  using assms
proof (cases rule: playCard_shape)
  case same
  then show ?thesis by simp
next
  case (win player i)
  from discard_allCards [OF win(1,2)] show ?thesis
    unfolding win(4) by (simp add: allCards_def)
next
  case (effect player i t msg x)
  let ?g1 = "(fields s)
      \<lparr>players := (players (fields s))
          [nat (currentPlayerIndex (fields s)) := player\<lparr>hand := removeAt i (hand player)\<rparr>],
       discardPile := discardPile (fields s) @ [hand player ! i]\<rparr>"
  from effect(1) have "nat (currentPlayerIndex (fields s)) < length (players ?g1)"
    by (simp add: playerAt_Some)
  from applyEffect_handCards [OF this, of rng "hand player ! i" t]
  have "allCards (fst (applyEffect rng (nat (currentPlayerIndex (fields s)))
      (hand player ! i) ?g1 t)) = allCards ?g1"
    by (simp add: allCards_def applyEffect_deck applyEffect_discardPile)
  also have "\<dots> = allCards (fields s)"
    by (rule discard_allCards [OF effect(1,2)])
  finally show ?thesis unfolding effect(5) by (simp add: allCards_def)
qed

lemma drawCard_allCards:
  assumes "drawCard rng s = Inr s'"
  shows "allCards (fields s') = allCards (fields s)"
proof (cases "truthy (winnerId (fields s))")
  case True
  with assms show ?thesis by (simp add: drawCard_def)
next
  case live: False
  show ?thesis
  proof (cases "playerAt (players (fields s)) (currentPlayerIndex (fields s))")
    case None
    with live assms show ?thesis by (simp add: drawCard_def Let_def)
  next
    case (Some player)
    obtain dk dp h a where loop: "drawLoop rng 0
        (nat (if pendingPickup (fields s) > 0 then pendingPickup (fields s) else 1))
        (deck (fields s), discardPile (fields s), hand player, 0) = (dk, dp, h, a)"
      by (cases "drawLoop rng 0
        (nat (if pendingPickup (fields s) > 0 then pendingPickup (fields s) else 1))
        (deck (fields s), discardPile (fields s), hand player, 0)") auto
    from Some have idx: "nat (currentPlayerIndex (fields s)) < length (players (fields s))"
      and p: "player = players (fields s) ! nat (currentPlayerIndex (fields s))"
      by (simp_all add: playerAt_Some)
    from drawLoop_mset [OF loop] have
      tot: "mset dk + mset dp + mset h =
        mset (deck (fields s)) + mset (discardPile (fields s)) + mset (hand player)" .
    from handCards_update [OF idx,
        of "player\<lparr>hand := (if \<not> isBot player then sortHand h else h)\<rparr>"] p
    have "handCards ((players (fields s))[nat (currentPlayerIndex (fields s)) :=
          player\<lparr>hand := (if \<not> isBot player then sortHand h else h)\<rparr>]) + mset (hand player)
        = handCards (players (fields s)) + mset h"
      by (simp add: mset_sortHand)
    then have "mset dk + mset dp
        + handCards ((players (fields s))[nat (currentPlayerIndex (fields s)) :=
          player\<lparr>hand := (if \<not> isBot player then sortHand h else h)\<rparr>]) + mset (hand player)
        = mset (deck (fields s)) + mset (discardPile (fields s))
          + handCards (players (fields s)) + mset (hand player)"
      using tot by (simp add: ac_simps)
    then have "mset dk + mset dp
        + handCards ((players (fields s))[nat (currentPlayerIndex (fields s)) :=
          player\<lparr>hand := (if \<not> isBot player then sortHand h else h)\<rparr>])
        = mset (deck (fields s)) + mset (discardPile (fields s))
          + handCards (players (fields s))"
      by simp
    with assms show ?thesis
      unfolding drawCard_result [OF live Some loop]
      by (auto simp: allCards_def)
  qed
qed

lemma swapWith_handCards:
  assumes "swapWith s target = Inr s'"
  shows "handCards (players (fields s')) = handCards (players (fields s))"
proof (cases "pendingSwap (fields s)")
  case False
  with assms show ?thesis by (simp add: swapWith_def)
next
  case sw: True
  show ?thesis
  proof (cases "findIndex (\<lambda>p. player_id p = target) (players (fields s))")
    case None
    with sw assms show ?thesis by (simp add: swapWith_def Let_def)
  next
    case (Some j)
    from findIndex_Some [OF Some] have j: "j < length (players (fields s))" by simp
    show ?thesis
    proof (cases "playerAt (players (fields s)) (currentPlayerIndex (fields s))")
      case None
      with sw Some assms show ?thesis by (simp add: swapWith_def Let_def)
    next
      case pl: (Some cur)
      from pl have idx: "nat (currentPlayerIndex (fields s)) < length (players (fields s))"
        and p: "cur = players (fields s) ! nat (currentPlayerIndex (fields s))"
        by (simp_all add: playerAt_Some)
      have "handCards ((players (fields s))
          [nat (currentPlayerIndex (fields s)) := cur\<lparr>hand := hand (players (fields s) ! j)\<rparr>,
           j := (players (fields s) ! j)\<lparr>hand := hand cur\<rparr>]) = handCards (players (fields s))"
        using handCards_swap [OF idx j] p by simp
      with sw Some pl assms idx show ?thesis
        by (auto simp: swapWith_def Let_def advanceTurn_def withPrevious_def split: if_splits)
    qed
  qed
qed

lemma outcome_same_cards:
  assumes inv: "chain (\<lambda>g. allCards g = mset createDeck) s" and out: "outcome c s = Some s'"
  shows "chain (\<lambda>g. allCards g = mset createDeck) s'"
  using inv out
proof (rule outcome_chain)
  fix rng cardId t assume "playCard rng s cardId = Inr t"
  from playCard_allCards [OF this] chain_fields [OF inv]
  show "allCards (fields t) = mset createDeck" by simp
next
  fix rng t assume "drawCard rng s = Inr t"
  from drawCard_allCards [OF this] chain_fields [OF inv]
  show "allCards (fields t) = mset createDeck" by simp
next
  fix x t assume "chooseSuit s x = Inr t"
  from chooseSuit_frame [OF this] chain_fields [OF inv]
  show "allCards (fields t) = mset createDeck" by (simp add: allCards_def)
next
  fix target t assume r: "swapWith s target = Inr t"
  from swapWith_frame [OF r] swapWith_handCards [OF r] chain_fields [OF inv]
  show "allCards (fields t) = mset createDeck" by (simp add: allCards_def)
next
  fix t assume "clearPeek s = Inr t \<or> confirmPassScreen s = Inr t \<or> triggerPassScreen s = Inr t"
  from display_frame [OF this] chain_fields [OF inv]
  show "allCards (fields t) = mset createDeck" by (simp add: allCards_def)
qed (simp_all add: allCards_def)

lemma reachable_same_cards: "reachable s \<Longrightarrow> chain (\<lambda>g. allCards g = mset createDeck) s"
proof (induction rule: reachable.induct)
  case (start rng avs numPlayers diff gm playerNames s)
  from createNewGame_cards [OF start] createNewGame_state [OF start] show ?case
    by (cases s) simp
next
  case (step s c s')
  from step.IH step.hyps(2) show ?case by (rule outcome_same_cards)
qed

subsection \<open>The current index names a player\<close>

lemma namesPlayer_playerAt:
  "namesPlayer g \<longleftrightarrow> playerAt (players g) (currentPlayerIndex g) \<noteq> None"
  by (simp add: namesPlayer_def playerAt_def)

lemma playCard_namesPlayer:
  assumes play: "playCard rng s cardId = Inr s'" and here: "namesPlayer (fields s)"
  shows "namesPlayer (fields s')"
  using play
proof (cases rule: playCard_shape)
  case same
  with here show ?thesis by simp
next
  case (win player i)
  with here show ?thesis by (simp add: namesPlayer_def)
next
  case (effect player i t msg x)
  from effect(4) here have "0 \<le> x \<and> x < int (length (players (fields s)))"
    by (auto simp: namesPlayer_def)
  then show ?thesis
    unfolding effect(5) by (simp add: namesPlayer_def applyEffect_length_players)
qed

lemma drawCard_namesPlayer:
  assumes draw: "drawCard rng s = Inr s'" and here: "namesPlayer (fields s)"
  shows "namesPlayer (fields s')"
proof (cases "truthy (winnerId (fields s))")
  case True
  with draw here show ?thesis by (simp add: drawCard_def)
next
  case live: False
  from here obtain player where
    pl: "playerAt (players (fields s)) (currentPlayerIndex (fields s)) = Some player"
    by (auto simp: namesPlayer_playerAt)
  obtain dk dp h a where loop: "drawLoop rng 0
      (nat (if pendingPickup (fields s) > 0 then pendingPickup (fields s) else 1))
      (deck (fields s), discardPile (fields s), hand player, 0) = (dk, dp, h, a)"
    by (cases "drawLoop rng 0
      (nat (if pendingPickup (fields s) > 0 then pendingPickup (fields s) else 1))
      (deck (fields s), discardPile (fields s), hand player, 0)") auto
  from pl have "players (fields s) \<noteq> []" by (auto simp: playerAt_Some)
  from mod_names_player [OF this] draw show ?thesis
    unfolding drawCard_result [OF live pl loop] by (auto simp: namesPlayer_def)
qed

lemma chooseSuit_namesPlayer:
  assumes "chooseSuit s x = Inr s'" and "namesPlayer (fields s)"
  shows "namesPlayer (fields s')"
  using assms mod_names_player [of "players (fields s)"]
  by (auto simp: chooseSuit_def Let_def advanceTurn_eq withPrevious_def namesPlayer_def
      split: if_splits)

lemma swapWith_namesPlayer:
  assumes "swapWith s target = Inr s'" and "namesPlayer (fields s)"
  shows "namesPlayer (fields s')"
  using assms mod_names_player [of "players (fields s)"]
  by (auto simp: swapWith_def Let_def advanceTurn_eq withPrevious_def namesPlayer_def
      split: if_splits option.splits)

lemma outcome_namesPlayer:
  assumes inv: "chain namesPlayer s" and out: "outcome c s = Some s'"
  shows "chain namesPlayer s'"
  using inv out
proof (rule outcome_chain)
  fix rng cardId t assume "playCard rng s cardId = Inr t"
  then show "namesPlayer (fields t)" using chain_fields [OF inv] by (rule playCard_namesPlayer)
next
  fix rng t assume "drawCard rng s = Inr t"
  then show "namesPlayer (fields t)" using chain_fields [OF inv] by (rule drawCard_namesPlayer)
next
  fix x t assume "chooseSuit s x = Inr t"
  then show "namesPlayer (fields t)" using chain_fields [OF inv] by (rule chooseSuit_namesPlayer)
next
  fix target t assume "swapWith s target = Inr t"
  then show "namesPlayer (fields t)" using chain_fields [OF inv] by (rule swapWith_namesPlayer)
next
  fix t assume "clearPeek s = Inr t \<or> confirmPassScreen s = Inr t \<or> triggerPassScreen s = Inr t"
  from display_frame [OF this] chain_fields [OF inv]
  show "namesPlayer (fields t)" by (simp add: namesPlayer_def)
qed (simp_all add: namesPlayer_def)

text \<open>In every reachable state the current index names a player: no call throws for want of
  a current player, and \<open>advanceTurn\<close> never meets an empty player list.\<close>

lemma reachable_names_player:
  assumes "reachable s"
  shows "playerAt (players (fields s)) (currentPlayerIndex (fields s)) \<noteq> None"
proof -
  from assms have "chain namesPlayer s"
  proof (induction rule: reachable.induct)
    case (start rng avs numPlayers diff gm playerNames s)
    from createNewGame_state [OF start] show ?case by (cases s) simp
  next
    case (step s c s')
    from step.IH step.hyps(2) show ?case by (rule outcome_namesPlayer)
  qed
  then have "namesPlayer (fields s)" by (rule chain_fields)
  then show ?thesis by (simp add: namesPlayer_playerAt)
qed

subsection \<open>Pending choices\<close>

lemma applyEffect_oneChoice:
  "\<not> pendingSuitChoice g \<Longrightarrow> \<not> pendingSwap g \<Longrightarrow>
     oneChoice (fst (applyEffect rng idx c g t))"
  by (simp add: applyEffect_def Let_def oneChoice_def split: option.splits)

lemma playCard_oneChoice:
  assumes play: "playCard rng s cardId = Inr s'"
    and none: "\<not> pendingSuitChoice (fields s)" "\<not> pendingSwap (fields s)"
  shows "oneChoice (fields s') \<and> previousState s' = previousState s"
  using play
proof (cases rule: playCard_shape)
  case same
  with none show ?thesis by (simp add: oneChoice_def)
next
  case (win player i)
  with none show ?thesis by (simp add: oneChoice_def)
next
  case (effect player i t msg x)
  let ?g1 = "(fields s)
      \<lparr>players := (players (fields s))
          [nat (currentPlayerIndex (fields s)) := player\<lparr>hand := removeAt i (hand player)\<rparr>],
       discardPile := discardPile (fields s) @ [hand player ! i]\<rparr>"
  have "oneChoice (fst (applyEffect rng (nat (currentPlayerIndex (fields s)))
      (hand player ! i) ?g1 t))"
    by (rule applyEffect_oneChoice) (simp_all add: none)
  then show ?thesis unfolding effect(5) by (simp add: oneChoice_def)
qed

lemma outcome_oneChoice:
  assumes inv: "chain oneChoice s" and gate: "resolvesFirst c s" and out: "outcome c s = Some s'"
  shows "chain oneChoice s'"
  using inv out
proof (rule outcome_chain)
  fix rng cardId t
  assume c: "(\<exists>r k. c = PlayCard r k) \<or> (\<exists>r. c = PerformBotTurn r)"
    and r: "playCard rng s cardId = Inr t"
  from c gate have "\<not> pendingSuitChoice (fields s)" "\<not> pendingSwap (fields s)"
    by (auto simp: resolvesFirst_def)
  with r have "oneChoice (fields t) \<and> previousState t = previousState s"
    by (rule playCard_oneChoice)
  then show "oneChoice (fields t)" by simp
next
  fix rng t assume "drawCard rng s = Inr t"
  from drawCard_flags [OF this] chain_fields [OF inv]
  show "oneChoice (fields t)" by (simp add: oneChoice_def)
next
  fix x t assume "chooseSuit s x = Inr t"
  from chooseSuit_frame [OF this] chain_fields [OF inv]
  show "oneChoice (fields t)" by (auto simp: oneChoice_def)
next
  fix target t assume "swapWith s target = Inr t"
  from swapWith_frame [OF this] chain_fields [OF inv]
  show "oneChoice (fields t)" by (auto simp: oneChoice_def)
next
  fix t assume "clearPeek s = Inr t \<or> confirmPassScreen s = Inr t \<or> triggerPassScreen s = Inr t"
  from display_frame [OF this] chain_fields [OF inv]
  show "oneChoice (fields t)" by (simp add: oneChoice_def)
qed (simp_all add: oneChoice_def)

lemma reachableResolving_oneChoice: "reachableResolving s \<Longrightarrow> chain oneChoice s"
proof (induction rule: reachableResolving.induct)
  case (start rng avs numPlayers diff gm playerNames s)
  from createNewGame_state [OF start] show ?case by (cases s) (simp add: oneChoice_def)
next
  case (step s c s')
  from step.IH step.hyps(2,3) show ?case by (rule outcome_oneChoice)
qed

subsection \<open>The sample games\<close>

lemma run_None: "run cs None = None"
  by (cases cs) simp_all

lemma run_reachable:
  "reachable s \<Longrightarrow> run cs (Some s) = Some s' \<Longrightarrow> reachable s'"
proof (induction cs arbitrary: s)
  case Nil
  then show ?case by simp
next
  case (Cons c cs)
  from Cons.prems(2) obtain s1 where s1: "outcome c s = Some s1" "run cs (Some s1) = Some s'"
    by (cases "outcome c s") (auto simp: run_None)
  from Cons.prems(1) s1(1) have "reachable s1" by (rule reachable.step)
  from Cons.IH [OF this s1(2)] show ?case .
qed

lemma run_start_reachable:
  assumes "run cs (returned (createNewGame rng avs n d gm nms)) = Some s"
  shows "reachable s"
proof (cases "createNewGame rng avs n d gm nms")
  case (Inl e)
  with assms show ?thesis by (simp add: returned_def run_None)
next
  case (Inr s0)
  then have "reachable s0" by (rule reachable.start)
  moreover from assms Inr have "run cs (Some s0) = Some s" by (simp add: returned_def)
  ultimately show ?thesis by (rule run_reachable)
qed

lemma twoPlayerGame_reachable: "twoPlayerGame = Some s \<Longrightarrow> reachable s"
  unfolding twoPlayerGame_def returned_def
  by (auto split: sum.splits intro: reachable.start)

lemma wonWhilePending_run: "run playsUntilWin twoPlayerGame = Some wonWhilePending"
proof -
  have "run playsUntilWin twoPlayerGame \<noteq> None" by code_simp
  then show ?thesis by (auto simp: wonWhilePending_def)
qed

lemma wonWhilePending_reachable: "reachable wonWhilePending"
proof -
  obtain s0 where s0: "twoPlayerGame = Some s0"
    using wonWhilePending_run by (cases twoPlayerGame) (auto simp: run_None)
  from twoPlayerGame_reachable [OF s0] wonWhilePending_run [unfolded s0]
  show ?thesis by (rule run_reachable)
qed

lemma afterPickup_reachable: "reachable afterPickup"
proof -
  have "run (queenThenKing @ [DrawCard noRandom]) threePlayerGame \<noteq> None" by code_simp
  then have "run (queenThenKing @ [DrawCard noRandom]) threePlayerGame = Some afterPickup"
    by (auto simp: afterPickup_def)
  then show ?thesis unfolding threePlayerGame_def by (rule run_start_reachable)
qed

lemma bothPending_reachable: "reachable bothPending"
proof -
  have "run queenThenKing threePlayerGame \<noteq> None" by code_simp
  then have "run queenThenKing threePlayerGame = Some bothPending"
    by (auto simp: bothPending_def)
  then show ?thesis unfolding threePlayerGame_def by (rule run_start_reachable)
qed

lemma runResolving_None: "runResolving cs None = None"
  by (cases cs) simp_all

lemma runResolving_reachable:
  "reachableResolving s \<Longrightarrow> runResolving cs (Some s) = Some s' \<Longrightarrow> reachableResolving s'"
proof (induction cs arbitrary: s)
  case Nil
  then show ?case by simp
next
  case (Cons c cs)
  from Cons.prems(2) have gate: "resolvesFirst c s"
    by (auto split: if_splits)
  with Cons.prems(2) obtain s1 where s1: "outcome c s = Some s1"
      "runResolving cs (Some s1) = Some s'"
    by (cases "outcome c s") (auto simp: runResolving_None)
  from Cons.prems(1) gate s1(1) have "reachableResolving s1" by (rule reachableResolving.step)
  from Cons.IH [OF this s1(2)] show ?case .
qed

lemma runResolving_start_reachable:
  assumes "runResolving cs (returned (createNewGame rng avs n d gm nms)) = Some s"
  shows "reachableResolving s"
proof (cases "createNewGame rng avs n d gm nms")
  case (Inl e)
  with assms show ?thesis by (simp add: returned_def runResolving_None)
next
  case (Inr s0)
  then have "reachableResolving s0" by (rule reachableResolving.start)
  moreover from assms Inr have "runResolving cs (Some s0) = Some s" by (simp add: returned_def)
  ultimately show ?thesis by (rule runResolving_reachable)
qed

lemma afterResolvedPlay_reachable: "reachableResolving afterResolvedPlay"
proof -
  have "runResolving resolvedPlay threePlayerGame \<noteq> None" by code_simp
  then have "runResolving resolvedPlay threePlayerGame = Some afterResolvedPlay"
    by (auto simp: afterResolvedPlay_def)
  then show ?thesis unfolding threePlayerGame_def by (rule runResolving_start_reachable)
qed

section \<open>Verified claims\<close>

subsection \<open>Claim C1\<close>

text \<open>
  Claim C1, as stated: in every state whose \<open>winnerId\<close> is not null, each of \<open>playCard\<close>,
  \<open>drawCard\<close>, \<open>chooseSuit\<close>, \<open>swapWith\<close>, \<open>clearPeek\<close>, \<open>confirmPassScreen\<close> and
  \<open>triggerPassScreen\<close> returns the state unchanged. This fails: only \<open>playCard\<close> and
  \<open>drawCard\<close> test \<open>winnerId\<close>. In the reachable state \<open>wonWhilePending\<close> the bot has won
  while its suit choice was pending; \<open>chooseSuit\<close> then still advances the turn, and
  \<open>triggerPassScreen\<close> still raises the pass screen.
\<close>

theorem terminal_noop_counterexample:
  "reachable wonWhilePending \<and>
   winnerId (fields wonWhilePending) \<noteq> None \<and>
   chooseSuit wonWhilePending Hearts \<noteq> Inr wonWhilePending \<and>
   triggerPassScreen wonWhilePending \<noteq> Inr wonWhilePending"
proof -
  have e: "(winnerId (fields wonWhilePending), currentPlayerIndex (fields wonWhilePending),
      showPassScreen (fields wonWhilePending),
      map_sum id (\<lambda>s. currentPlayerIndex (fields s)) (chooseSuit wonWhilePending Hearts),
      map_sum id (\<lambda>s. showPassScreen (fields s)) (triggerPassScreen wonWhilePending))
     = (Some ''bot-1'', 1, False, Inr 0, Inr True)"
    by code_simp
  then have w: "winnerId (fields wonWhilePending) = Some ''bot-1''"
    and i: "currentPlayerIndex (fields wonWhilePending) = 1"
    and c: "map_sum id (\<lambda>s. currentPlayerIndex (fields s)) (chooseSuit wonWhilePending Hearts)
      = Inr 0"
    and p: "showPassScreen (fields wonWhilePending) = False"
    and t: "map_sum id (\<lambda>s. showPassScreen (fields s)) (triggerPassScreen wonWhilePending)
      = Inr True"
    by simp_all
  from c i have "chooseSuit wonWhilePending Hearts \<noteq> Inr wonWhilePending" by auto
  moreover from t p have "triggerPassScreen wonWhilePending \<noteq> Inr wonWhilePending" by auto
  ultimately show ?thesis using w wonWhilePending_reachable by simp
qed

text \<open>
  Claim C1, amended: in every state whose \<open>winnerId\<close> is a non-empty string, \<open>playCard\<close> and
  \<open>drawCard\<close> (and \<open>performBotTurn\<close>) return the state unchanged; \<open>chooseSuit\<close> returns it
  unchanged when no suit choice is pending and \<open>swapWith\<close> when no swap is pending;
  \<open>clearPeek\<close>, \<open>confirmPassScreen\<close> and \<open>triggerPassScreen\<close> return it with only the display
  fields \<open>peekingCard\<close> and \<open>peekingPlayerId\<close>, \<open>showPassScreen\<close>, and \<open>showPassScreen\<close> and
  \<open>nextPlayerName\<close> rewritten (the last needs the current index to name a player).
\<close>

theorem terminal_state_calls:
  assumes over: "truthy (winnerId (fields S))"
  shows "playCard rng S cardId = Inr S \<and>
     drawCard rng S = Inr S \<and>
     performBotTurn rng S = Inr S \<and>
     (\<not> pendingSuitChoice (fields S) \<longrightarrow> chooseSuit S x = Inr S) \<and>
     (\<not> pendingSwap (fields S) \<longrightarrow> swapWith S targetPlayerId = Inr S) \<and>
     clearPeek S =
       Inr (GameState ((fields S)\<lparr>peekingCard := None, peekingPlayerId := None\<rparr>)
              (previousState S)) \<and>
     confirmPassScreen S =
       Inr (GameState ((fields S)\<lparr>showPassScreen := False\<rparr>) (previousState S)) \<and>
     (\<forall>p. playerAt (players (fields S)) (currentPlayerIndex (fields S)) = Some p \<longrightarrow>
        triggerPassScreen S =
          Inr (GameState ((fields S)\<lparr>showPassScreen := True, nextPlayerName := name p\<rparr>)
                 (previousState S)))"
  using over
  by (simp add: playCard_def drawCard_def performBotTurn_def chooseSuit_def swapWith_def
      clearPeek_def confirmPassScreen_def triggerPassScreen_def Let_def)

theorem terminal_state_calls_witness:
  "truthy (winnerId (fields finishedState)) \<and>
   playCard noRandom finishedState (card_id (mkCard Hearts Nine)) = Inr finishedState \<and>
   drawCard noRandom finishedState = Inr finishedState \<and>
   chooseSuit finishedState Spades = Inr finishedState \<and>
   swapWith finishedState ''bot-1'' = Inr finishedState \<and>
   map_sum id (\<lambda>s. peekingCard (fields s)) (clearPeek finishedState) = Inr None \<and>
   map_sum id (\<lambda>s. (deck (fields s), discardPile (fields s), players (fields s),
        currentPlayerIndex (fields s), pendingPickup (fields s))) (triggerPassScreen finishedState)
     = Inr (deck (fields finishedState), discardPile (fields finishedState),
        players (fields finishedState), 0, 2)"
proof -
  have 1: "truthy (winnerId (fields finishedState))"
    by (simp add: finishedState_def tableOf_def truthy_def)
  have 2: "\<not> pendingSuitChoice (fields finishedState)" "\<not> pendingSwap (fields finishedState)"
    by (simp_all add: finishedState_def tableOf_def)
  have 3: "playerAt (players (fields finishedState)) (currentPlayerIndex (fields finishedState))
     = Some (seat ''player-0'' False [])"
    by (simp add: finishedState_def tableOf_def playerAt_def)
  have v: "currentPlayerIndex (fields finishedState) = 0" "pendingPickup (fields finishedState) = 2"
    by (simp_all add: finishedState_def tableOf_def)
  from terminal_state_calls [OF 1, of noRandom "card_id (mkCard Hearts Nine)" Spades "''bot-1''"]
    1 2 3 v
  show ?thesis by simp
qed

subsection \<open>Claim C2\<close>

text \<open>
  Claim C2. For all cards \<open>c\<close> and \<open>topDiscard\<close> and every integer \<open>pending \<ge> 0\<close>
  (the argument \<^verbatim>\<open>pendingPickup\<close>),
  \<open>isValidMove\<close> holds exactly when: the ranks are equal, in case \<open>pending > 0\<close> (a
  matching suit alone does not defend); the suits or the ranks are equal, otherwise.
\<close>

theorem isValidMove_legality:
  assumes "0 \<le> pending"
  shows "isValidMove c topDiscard pending \<longleftrightarrow>
           (0 < pending \<longrightarrow> rank c = rank topDiscard) \<and>
           (pending = 0 \<longrightarrow> suit c = suit topDiscard \<or> rank c = rank topDiscard)"
  using assms by (auto simp: isValidMove_def)

theorem isValidMove_legality_witness:
  "(0::int) \<le> 2 \<and> \<not> isValidMove (mkCard Hearts Five) (mkCard Hearts Two) 2
     \<and> isValidMove (mkCard Spades Two) (mkCard Hearts Two) 2
     \<and> isValidMove (mkCard Hearts Five) (mkCard Hearts Two) 0"
  using isValidMove_legality [of 2 "mkCard Hearts Five" "mkCard Hearts Two"]
    isValidMove_legality [of 2 "mkCard Spades Two" "mkCard Hearts Two"]
    isValidMove_legality [of 0 "mkCard Hearts Five" "mkCard Hearts Two"]
  by (simp add: mkCard_def)

subsection \<open>Claim C3\<close>

text \<open>
  Claim C3. Card conservation: in every state reachable from \<open>createNewGame\<close> by calls of the
  engine (\<open>playCard\<close>, \<open>drawCard\<close>, \<open>performBotTurn\<close>, \<open>chooseSuit\<close>, \<open>swapWith\<close>, \<open>clearPeek\<close>,
  \<open>confirmPassScreen\<close>, \<open>triggerPassScreen\<close>, \<open>botChooseSuit\<close>, \<open>botChooseSwap\<close>,
  \<open>saveStateForUndo\<close>, \<open>undoLastMove\<close>, with any arguments and any outcome of the random
  source), the lengths of the deck, of the discard pile and of all hands add up to 52; and no
  call creates or destroys a card: the cards of the deck, of the discard pile and of the hands
  are, counted with multiplicity, the 52 cards of \<open>createDeck\<close>.
\<close>

theorem card_conservation:
  assumes "reachable s"
  shows "length (deck (fields s)) + length (discardPile (fields s))
      + (\<Sum>p\<leftarrow>players (fields s). length (hand p)) = 52 \<and>
     mset (deck (fields s)) + mset (discardPile (fields s))
      + (\<Sum>p\<leftarrow>players (fields s). mset (hand p)) = mset createDeck"
  using chain_fields [OF reachable_conserved [OF assms]]
    chain_fields [OF reachable_same_cards [OF assms]]
  by (simp add: cardTotal_def handTotal_def allCards_def handCards_def)

theorem card_conservation_witness:
  "reachable afterPickup \<and>
   length (deck (fields afterPickup)) + length (discardPile (fields afterPickup))
      + (\<Sum>p\<leftarrow>players (fields afterPickup). length (hand p)) = 52 \<and>
   mset (deck (fields afterPickup)) + mset (discardPile (fields afterPickup))
      + (\<Sum>p\<leftarrow>players (fields afterPickup). mset (hand p)) = mset createDeck \<and>
   map (\<lambda>p. length (hand p)) (players (fields afterPickup)) = [6, 7, 7] \<and>
   length (discardPile (fields afterPickup)) = 4"
proof -
  have "map (\<lambda>p. length (hand p)) (players (fields afterPickup)) = [6, 7, 7] \<and>
     length (discardPile (fields afterPickup)) = 4"
    by code_simp
  with card_conservation [OF afterPickup_reachable] afterPickup_reachable
  show ?thesis by simp
qed

subsection \<open>Claim C4\<close>

text \<open>
  Claim C4. When \<open>playCard\<close> removes the last card of the acting player (the game is not
  over, the current index names a player, the card id is found in that hand), it returns a
  state whose \<open>winnerId\<close> is that player's id and whose \<open>lastAction\<close> is the winning text,
  and no card effect is applied whatever the card is: \<open>pendingPickup\<close>, \<open>pendingSuitChoice\<close>,
  \<open>pendingSwap\<close>, \<open>direction\<close>, \<open>currentPlayerIndex\<close>, the deck, the peek fields and every
  other player are as before; the card is on top of the discard pile.
\<close>

theorem playCard_win:
  assumes live: "\<not> truthy (winnerId (fields s))"
    and pl: "playerAt (players (fields s)) (currentPlayerIndex (fields s)) = Some player"
    and found: "findIndex (\<lambda>c. card_id c = cardId) (hand player) = Some i"
    and empty: "removeAt i (hand player) = []"
  shows "\<exists>s'. playCard rng s cardId = Inr s' \<and>
      winnerId (fields s') = Some (player_id player) \<and>
      lastAction (fields s') = name player @ '' wins! '' @ glyph_party \<and>
      pendingPickup (fields s') = pendingPickup (fields s) \<and>
      pendingSuitChoice (fields s') = pendingSuitChoice (fields s) \<and>
      pendingSwap (fields s') = pendingSwap (fields s) \<and>
      direction (fields s') = direction (fields s) \<and>
      currentPlayerIndex (fields s') = currentPlayerIndex (fields s) \<and>
      deck (fields s') = deck (fields s) \<and>
      chosenSuit (fields s') = chosenSuit (fields s) \<and>
      peekingCard (fields s') = peekingCard (fields s) \<and>
      peekingPlayerId (fields s') = peekingPlayerId (fields s) \<and>
      discardPile (fields s') = discardPile (fields s) @ [hand player ! i] \<and>
      length (players (fields s')) = length (players (fields s)) \<and>
      hand (players (fields s') ! nat (currentPlayerIndex (fields s))) = [] \<and>
      (\<forall>j. j \<noteq> nat (currentPlayerIndex (fields s)) \<longrightarrow>
           players (fields s') ! j = players (fields s) ! j)"
proof -
  from pl have "nat (currentPlayerIndex (fields s)) < length (players (fields s))"
    by (simp add: playerAt_Some)
  then show ?thesis
    unfolding playCard_win_result [OF assms] by simp
qed

theorem playCard_win_witness:
  "\<exists>s'. playCard noRandom lastCardState (card_id (mkCard Spades Jack)) = Inr s' \<and>
     isBlackJack (mkCard Spades Jack) \<and>
     winnerId (fields s') = Some ''player-0'' \<and>
     pendingPickup (fields s') = 2 \<and> pendingPickup (fields lastCardState) = 2 \<and>
     currentPlayerIndex (fields s') = 0 \<and>
     hand (players (fields s') ! 1) = [mkCard Hearts Nine]"
proof -
  have 1: "\<not> truthy (winnerId (fields lastCardState))"
    by (simp add: lastCardState_def tableOf_def truthy_def)
  have 2: "playerAt (players (fields lastCardState)) (currentPlayerIndex (fields lastCardState))
      = Some (seat ''player-0'' False [mkCard Spades Jack])"
    by (simp add: lastCardState_def tableOf_def playerAt_def)
  have 3: "findIndex (\<lambda>c. card_id c = card_id (mkCard Spades Jack))
      (hand (seat ''player-0'' False [mkCard Spades Jack])) = Some 0"
    by (simp add: seat_def)
  have 4: "removeAt 0 (hand (seat ''player-0'' False [mkCard Spades Jack])) = []"
    by (simp add: seat_def removeAt_def)
  from playCard_win [OF 1 2 3 4, of noRandom] obtain s' where
    "playCard noRandom lastCardState (card_id (mkCard Spades Jack)) = Inr s'"
    "winnerId (fields s') = Some (player_id (seat ''player-0'' False [mkCard Spades Jack]))"
    "pendingPickup (fields s') = pendingPickup (fields lastCardState)"
    "currentPlayerIndex (fields s') = currentPlayerIndex (fields lastCardState)"
    "\<forall>j. j \<noteq> nat (currentPlayerIndex (fields lastCardState)) \<longrightarrow>
       players (fields s') ! j = players (fields lastCardState) ! j"
    by blast
  then show ?thesis
    by (simp add: lastCardState_def tableOf_def seat_def isBlackJack_def
        mkCard_def show_nat.simps digit_str_def)
qed

subsection \<open>Claim C5\<close>

text \<open>
  Claim C5. Undo round trip: for every state \<open>S\<close> that is reachable, or is over, or whose
  current index names a player (the states on which \<open>playCard\<close> does not throw) and every
  card id, \<open>undoLastMove\<close> applied to \<open>playCard (saveStateForUndo S) cardId\<close> returns a state
  with the players and their hands, the deck, the discard pile, \<open>currentPlayerIndex\<close> and
  \<open>direction\<close> of \<open>S\<close>, with \<open>canUndo\<close> false and no previous state. And \<open>undoLastMove\<close>
  returns null (\<open>None\<close>) on every state whose \<open>canUndo\<close> is false or whose previous state is
  null.
\<close>

theorem undo_round_trip:
  assumes ok: "reachable S \<or> truthy (winnerId (fields S)) \<or>
     playerAt (players (fields S)) (currentPlayerIndex (fields S)) \<noteq> None"
  shows "(\<exists>S' R. playCard rng (saveStateForUndo S) cardId = Inr S' \<and>
            undoLastMove S' = Some R \<and>
            players (fields R) = players (fields S) \<and>
            deck (fields R) = deck (fields S) \<and>
            discardPile (fields R) = discardPile (fields S) \<and>
            currentPlayerIndex (fields R) = currentPlayerIndex (fields S) \<and>
            direction (fields R) = direction (fields S) \<and>
            \<not> canUndo (fields R) \<and> previousState R = None) \<and>
         (\<forall>T. \<not> canUndo (fields T) \<or> previousState T = None \<longrightarrow> undoLastMove T = None)"
proof
  from ok reachable_names_player [of S]
  have "truthy (winnerId (fields S)) \<or>
     playerAt (players (fields S)) (currentPlayerIndex (fields S)) \<noteq> None" by blast
  then have "truthy (winnerId (fields (saveStateForUndo S))) \<or>
     playerAt (players (fields (saveStateForUndo S)))
       (currentPlayerIndex (fields (saveStateForUndo S))) \<noteq> None"
    by (simp add: saveStateForUndo_fields)
  from playCard_returns [OF this] obtain S' where
    S': "playCard rng (saveStateForUndo S) cardId = Inr S'" by blast
  from playCard_keeps_undo [OF S'] have
    "previousState S' = Some (GameState ((fields S)\<lparr>canUndo := False\<rparr>) None)"
    "canUndo (fields S')"
    by (simp_all add: saveStateForUndo_fields)
  then have "undoLastMove S' = Some (GameState
      ((fields S)\<lparr>canUndo := False, lastAction := glyph_return @ '' Move undone!''\<rparr>) None)"
    by (simp add: undoLastMove_def)
  with S' show "\<exists>S' R. playCard rng (saveStateForUndo S) cardId = Inr S' \<and>
            undoLastMove S' = Some R \<and>
            players (fields R) = players (fields S) \<and>
            deck (fields R) = deck (fields S) \<and>
            discardPile (fields R) = discardPile (fields S) \<and>
            currentPlayerIndex (fields R) = currentPlayerIndex (fields S) \<and>
            direction (fields R) = direction (fields S) \<and>
            \<not> canUndo (fields R) \<and> previousState R = None"
    by simp
next
  show "\<forall>T. \<not> canUndo (fields T) \<or> previousState T = None \<longrightarrow> undoLastMove T = None"
    by (auto simp: undoLastMove_def)
qed

theorem undo_round_trip_witness:
  "(\<exists>S' R. playCard noRandom (saveStateForUndo underAttackState) (card_id (mkCard Hearts Two))
              = Inr S' \<and>
      hand (players (fields S') ! 0) = [mkCard Spades Jack, mkCard Hearts Five] \<and>
      undoLastMove S' = Some R \<and>
      players (fields R) = players (fields underAttackState) \<and>
      deck (fields R) = deck (fields underAttackState) \<and>
      discardPile (fields R) = discardPile (fields underAttackState) \<and>
      currentPlayerIndex (fields R) = 0 \<and> direction (fields R) = - 1 \<and>
      \<not> canUndo (fields R) \<and> previousState R = None) \<and>
   undoLastMove underAttackState = None"
proof -
  have ok: "reachable underAttackState \<or> truthy (winnerId (fields underAttackState)) \<or>
     playerAt (players (fields underAttackState))
       (currentPlayerIndex (fields underAttackState)) \<noteq> None"
    by (simp add: underAttackState_def tableOf_def playerAt_def)
  have n: "\<not> canUndo (fields underAttackState) \<or> previousState underAttackState = None"
    by (simp add: underAttackState_def)
  have v: "currentPlayerIndex (fields underAttackState) = 0"
    "direction (fields underAttackState) = - 1"
    by (simp_all add: underAttackState_def tableOf_def)
  have "\<exists>S'. playCard noRandom (saveStateForUndo underAttackState) (card_id (mkCard Hearts Two))
              = Inr S' \<and>
      hand (players (fields S') ! 0) = [mkCard Spades Jack, mkCard Hearts Five]"
    by (simp add: playCard_def saveStateForUndo_def underAttackState_def tableOf_def seat_def
        truthy_def playerAt_def removeAt_def Let_def applyEffect_def isTwo_def mkCard_def
        advanceTurn_def withPrevious_def)
  with undo_round_trip [OF ok, of noRandom "card_id (mkCard Hearts Two)"] n
  show ?thesis unfolding v by auto
qed

subsection \<open>Claim C6\<close>

text \<open>
  Claim C6. Attack stacking: when \<open>playCard\<close> plays a card of rank 2 that is not the last
  card of the hand, \<open>pendingPickup\<close> grows by 2 and the turn advances by exactly one step in
  the current direction; when it plays the Jack of Spades or of Clubs, \<open>pendingPickup\<close>
  grows by 5 and the turn advances by one step. From \<open>pendingPickup = 2\<close> a defending 2
  gives 4, with the next player under attack (the example after the theorem).
\<close>

theorem playCard_attack_stacking:
  assumes live: "\<not> truthy (winnerId (fields s))"
    and pl: "playerAt (players (fields s)) (currentPlayerIndex (fields s)) = Some player"
    and found: "findIndex (\<lambda>c. card_id c = cardId) (hand player) = Some i"
    and more: "removeAt i (hand player) \<noteq> []"
  shows "(isTwo (hand player ! i) \<longrightarrow>
           (\<exists>s'. playCard rng s cardId = Inr s' \<and>
              pendingPickup (fields s') = pendingPickup (fields s) + 2 \<and>
              currentPlayerIndex (fields s') =
                (currentPlayerIndex (fields s) + direction (fields s) * 1)
                   mod int (length (players (fields s))))) \<and>
         (isBlackJack (hand player ! i) \<longrightarrow>
           (\<exists>s'. playCard rng s cardId = Inr s' \<and>
              pendingPickup (fields s') = pendingPickup (fields s) + 5 \<and>
              currentPlayerIndex (fields s') =
                (currentPlayerIndex (fields s) + direction (fields s) * 1)
                   mod int (length (players (fields s)))))"
proof -
  from pl have ne: "players (fields s) \<noteq> []" by (auto simp: playerAt_Some)
  have two: "isBlackJack (hand player ! i) \<Longrightarrow> \<not> isTwo (hand player ! i)"
    by (simp add: isBlackJack_def isTwo_def)
  show ?thesis
    using assms ne two
    by (auto simp add: playCard_def Let_def applyEffect_def advanceTurn_Inr withPrevious_def)
qed

theorem playCard_attack_stacking_witness:
  "(\<exists>s'. playCard noRandom underAttackState (card_id (mkCard Hearts Two)) = Inr s' \<and>
      pendingPickup (fields underAttackState) = 2 \<and>
      pendingPickup (fields s') = 4 \<and> currentPlayerIndex (fields s') = 2) \<and>
   (\<exists>s'. playCard noRandom underAttackState (card_id (mkCard Spades Jack)) = Inr s' \<and>
      pendingPickup (fields s') = 7 \<and> currentPlayerIndex (fields s') = 2)"
proof -
  let ?h = "[mkCard Hearts Two, mkCard Spades Jack, mkCard Hearts Five]"
  have 1: "\<not> truthy (winnerId (fields underAttackState))"
    by (simp add: underAttackState_def tableOf_def truthy_def)
  have 2: "playerAt (players (fields underAttackState))
      (currentPlayerIndex (fields underAttackState)) = Some (seat ''player-0'' False ?h)"
    by (simp add: underAttackState_def tableOf_def playerAt_def)
  have 3: "findIndex (\<lambda>c. card_id c = card_id (mkCard Hearts Two))
      (hand (seat ''player-0'' False ?h)) = Some 0"
    by (simp add: seat_def)
  have 4: "removeAt 0 (hand (seat ''player-0'' False ?h)) \<noteq> []"
    by (simp add: seat_def removeAt_def)
  have 5: "findIndex (\<lambda>c. card_id c = card_id (mkCard Spades Jack))
      (hand (seat ''player-0'' False ?h)) = Some 1"
    by (simp add: seat_def mkCard_def suit_str_def)
  have 6: "removeAt 1 (hand (seat ''player-0'' False ?h)) \<noteq> []"
    by (simp add: seat_def removeAt_def)
  have a: "isTwo (hand (seat ''player-0'' False ?h) ! 0)"
    by (simp add: seat_def isTwo_def mkCard_def)
  have b: "isBlackJack (hand (seat ''player-0'' False ?h) ! 1)"
    by (simp add: seat_def isBlackJack_def mkCard_def)
  have v: "pendingPickup (fields underAttackState) = 2"
    "(currentPlayerIndex (fields underAttackState) + direction (fields underAttackState) * 1)
       mod int (length (players (fields underAttackState))) = 2"
    by (simp_all add: underAttackState_def tableOf_def)
  from playCard_attack_stacking [OF 1 2 3 4, of noRandom] a
    playCard_attack_stacking [OF 1 2 5 6, of noRandom] b
  show ?thesis unfolding v by auto
qed

subsection \<open>Claim C7\<close>

text \<open>
  Claim C7, as stated: in every state reachable from \<open>createNewGame\<close> by calls of the engine,
  \<open>pendingSuitChoice\<close> and \<open>pendingSwap\<close> are never both true. This fails: \<open>playCard\<close> does
  not look at the pending flags. In the three-player game \<open>bothPending\<close> the bot has played
  the Queen of Hearts, which leaves the turn with it, and then the King of Hearts.
\<close>

theorem pending_choices_counterexample:
  "reachable bothPending \<and>
   pendingSuitChoice (fields bothPending) \<and> pendingSwap (fields bothPending)"
proof -
  have "pendingSuitChoice (fields bothPending) \<and> pendingSwap (fields bothPending)"
    by code_simp
  with bothPending_reachable show ?thesis by simp
qed

text \<open>
  Claim C7, amended: each effect of \<open>playCard\<close> sets at most one of the two flags and no other
  call sets any, so that in every state reachable from \<open>createNewGame\<close> by calls of the engine
  among which \<open>playCard\<close> and \<open>performBotTurn\<close> are made only when no choice is pending,
  \<open>pendingSuitChoice\<close> and \<open>pendingSwap\<close> are never both true.
\<close>

theorem pending_choices_exclusive:
  assumes "reachableResolving s"
  shows "\<not> (pendingSuitChoice (fields s) \<and> pendingSwap (fields s))"
  using chain_fields [OF reachableResolving_oneChoice [OF assms]]
  by (simp add: oneChoice_def)

theorem pending_choices_exclusive_witness:
  "reachableResolving afterResolvedPlay \<and>
   pendingSwap (fields afterResolvedPlay) \<and> \<not> pendingSuitChoice (fields afterResolvedPlay)"
proof -
  have "pendingSwap (fields afterResolvedPlay)" by code_simp
  with pending_choices_exclusive [OF afterResolvedPlay_reachable] afterResolvedPlay_reachable
  show ?thesis by simp
qed

subsection \<open>Claim C8\<close>

text \<open>
  Claim C8. \<open>drawCard\<close> never raises: on every state that is reachable (or is over, or whose
  current index names a player) it returns a state. Unless the game is over, when nothing is
  drawn and the state comes back as it is, it attempts \<open>n\<close> draws, \<open>n\<close> being \<open>pendingPickup\<close>
  when that is positive and 1 otherwise; when the deck runs out before the \<open>n\<close> draws are made
  and the discard pile holds more than one card, the pile is recycled and only its top card
  stays; the hand grows by \<open>n\<close> or by what the deck and the discard pile below its top card
  could supply, whichever is less, and no card is gained or lost. In every case, full or
  partial, \<open>pendingPickup\<close> is 0 afterwards and the turn has advanced by exactly one step in
  the current direction. In the example after the theorem the deck holds one card and the
  discard pile only its top card, so that a draw of 2 is partial.
\<close>

theorem drawCard_never_raises:
  assumes ok: "reachable s \<or> truthy (winnerId (fields s)) \<or>
      playerAt (players (fields s)) (currentPlayerIndex (fields s)) \<noteq> None"
    and n: "n = nat (if pendingPickup (fields s) > 0 then pendingPickup (fields s) else 1)"
  shows "\<exists>s'. drawCard rng s = Inr s' \<and>
     (\<not> truthy (winnerId (fields s)) \<longrightarrow>
      pendingPickup (fields s') = 0 \<and>
      currentPlayerIndex (fields s') =
        (currentPlayerIndex (fields s) + direction (fields s) * 1)
           mod int (length (players (fields s))) \<and>
      direction (fields s') = direction (fields s) \<and>
      length (players (fields s')) = length (players (fields s)) \<and>
      length (hand (players (fields s') ! nat (currentPlayerIndex (fields s)))) =
        length (hand (players (fields s) ! nat (currentPlayerIndex (fields s))))
          + min n (length (deck (fields s)) + (length (discardPile (fields s)) - 1)) \<and>
      (\<forall>j. j \<noteq> nat (currentPlayerIndex (fields s)) \<longrightarrow>
           players (fields s') ! j = players (fields s) ! j) \<and>
      length (deck (fields s')) + length (discardPile (fields s'))
          + length (hand (players (fields s') ! nat (currentPlayerIndex (fields s)))) =
        length (deck (fields s)) + length (discardPile (fields s))
          + length (hand (players (fields s) ! nat (currentPlayerIndex (fields s)))) \<and>
      discardPile (fields s') =
        (if length (deck (fields s)) < n \<and> 1 < length (discardPile (fields s))
         then [last (discardPile (fields s))] else discardPile (fields s)))"
proof (cases "truthy (winnerId (fields s))")
  case True
  then show ?thesis by (simp add: drawCard_def)
next
  case live: False
  with ok reachable_names_player [of s] obtain player where
    pl: "playerAt (players (fields s)) (currentPlayerIndex (fields s)) = Some player"
    by blast
  obtain dk dp h a where loop: "drawLoop rng 0 n
        (deck (fields s), discardPile (fields s), hand player, 0) = (dk, dp, h, a)"
    by (cases "drawLoop rng 0 n (deck (fields s), discardPile (fields s), hand player, 0)") auto
  from pl have idx: "nat (currentPlayerIndex (fields s)) < length (players (fields s))"
    and p: "players (fields s) ! nat (currentPlayerIndex (fields s)) = player"
    by (simp_all add: playerAt_Some)
  note facts = drawLoop_facts [OF loop]
  show ?thesis
    unfolding drawCard_result [OF live pl loop [unfolded n]] p
    using idx facts by (auto simp: length_sortHand)
qed

theorem drawCard_never_raises_witness:
  "pendingPickup (fields underAttackState) = 2 \<and>
   length (deck (fields underAttackState)) = 1 \<and>
   length (discardPile (fields underAttackState)) = 1 \<and>
   (\<exists>s'. drawCard noRandom underAttackState = Inr s' \<and>
      pendingPickup (fields s') = 0 \<and>
      currentPlayerIndex (fields s') = 2 \<and>
      length (hand (players (fields s') ! 0)) = 4)"
proof -
  have 1: "\<not> truthy (winnerId (fields underAttackState))"
    by (simp add: underAttackState_def tableOf_def truthy_def)
  have 2: "reachable underAttackState \<or> truthy (winnerId (fields underAttackState)) \<or>
      playerAt (players (fields underAttackState))
        (currentPlayerIndex (fields underAttackState)) \<noteq> None"
    by (simp add: underAttackState_def tableOf_def playerAt_def)
  have 3: "(2::nat) = nat (if pendingPickup (fields underAttackState) > 0
      then pendingPickup (fields underAttackState) else 1)"
    by (simp add: underAttackState_def tableOf_def)
  have v: "pendingPickup (fields underAttackState) = 2"
    "length (deck (fields underAttackState)) = 1"
    "length (discardPile (fields underAttackState)) = 1"
    "(currentPlayerIndex (fields underAttackState) + direction (fields underAttackState) * 1)
       mod int (length (players (fields underAttackState))) = 2"
    "nat (currentPlayerIndex (fields underAttackState)) = 0"
    "length (hand (players (fields underAttackState) ! 0)) = 3"
    by (simp_all add: underAttackState_def tableOf_def seat_def)
  from drawCard_never_raises [OF 2 3, of noRandom] 1
  show ?thesis unfolding v by auto
qed

subsection \<open>Claim C9\<close>

text \<open>
  Claim C9. \<open>playCard\<close> checks no legality: in every state with a falsy \<open>winnerId\<close> (null
  in particular) whose current player holds a card with the given id, it returns a state in
  which that card has left the hand and lies on top of the discard pile; unless the hand is
  now empty, the fields are those that \<open>applyEffect\<close> gives for the card, up to the action text
  and the turn index. Nothing is assumed about \<open>isValidMove\<close> or about \<open>pendingSuitChoice\<close> and
  \<open>pendingSwap\<close>: in the example after the theorem the Jack of Spades is played on a Two
  under attack, which \<open>isValidMove\<close> rejects, while a suit choice is pending, and its attack
  is added. (The hand without the card is the hand of some player afterwards: of the acting
  player, or of the opponent when a King exchanged the hands of a two-player game.)
\<close>

theorem playCard_no_legality_check:
  assumes live: "\<not> truthy (winnerId (fields s))"
    and pl: "playerAt (players (fields s)) (currentPlayerIndex (fields s)) = Some player"
    and found: "findIndex (\<lambda>c. card_id c = cardId) (hand player) = Some i"
  shows "\<exists>s'. playCard rng s cardId = Inr s' \<and>
      discardPile (fields s') = discardPile (fields s) @ [hand player ! i] \<and>
      deck (fields s') = deck (fields s) \<and>
      length (players (fields s')) = length (players (fields s)) \<and>
      (\<exists>j<length (players (fields s)).
          hand (players (fields s') ! j) = removeAt i (hand player)) \<and>
      (removeAt i (hand player) \<noteq> [] \<longrightarrow>
         (\<exists>t msg x. fields s' =
            (fst (applyEffect rng (nat (currentPlayerIndex (fields s))) (hand player ! i)
               ((fields s)
                  \<lparr>players := (players (fields s))
                      [nat (currentPlayerIndex (fields s)) :=
                         player\<lparr>hand := removeAt i (hand player)\<rparr>],
                   discardPile := discardPile (fields s) @ [hand player ! i]\<rparr>) t))
              \<lparr>lastAction := msg, currentPlayerIndex := x\<rparr>))"
proof -
  from playCard_found [OF live pl found] obtain s' where
    r: "playCard rng s cardId = Inr s'"
    and dp: "discardPile (fields s') = discardPile (fields s) @ [hand player ! i]"
    and rest: "deck (fields s') = deck (fields s)"
      "length (players (fields s')) = length (players (fields s))"
      "\<exists>j<length (players (fields s)).
          hand (players (fields s') ! j) = removeAt i (hand player)"
    by blast
  have "removeAt i (hand player) \<noteq> [] \<longrightarrow>
         (\<exists>t msg x. fields s' =
            (fst (applyEffect rng (nat (currentPlayerIndex (fields s))) (hand player ! i)
               ((fields s)
                  \<lparr>players := (players (fields s))
                      [nat (currentPlayerIndex (fields s)) :=
                         player\<lparr>hand := removeAt i (hand player)\<rparr>],
                   discardPile := discardPile (fields s) @ [hand player ! i]\<rparr>) t))
              \<lparr>lastAction := msg, currentPlayerIndex := x\<rparr>)"
  proof
    assume more: "removeAt i (hand player) \<noteq> []"
    from r show "\<exists>t msg x. fields s' =
            (fst (applyEffect rng (nat (currentPlayerIndex (fields s))) (hand player ! i)
               ((fields s)
                  \<lparr>players := (players (fields s))
                      [nat (currentPlayerIndex (fields s)) :=
                         player\<lparr>hand := removeAt i (hand player)\<rparr>],
                   discardPile := discardPile (fields s) @ [hand player ! i]\<rparr>) t))
              \<lparr>lastAction := msg, currentPlayerIndex := x\<rparr>"
    proof (cases rule: playCard_shape)
      case same
      with dp show ?thesis by simp
    next
      case (win p' i')
      with pl found more show ?thesis by simp
    next
      case (effect p' i' t msg x)
      from effect(1,2) pl found have "p' = player" "i' = i" by simp_all
      with effect(5) show ?thesis by auto
    qed
  qed
  with r dp rest show ?thesis by blast
qed

theorem playCard_no_legality_check_witness:
  "\<not> isValidMove (mkCard Spades Jack) (last (discardPile (fields underAttackState)))
       (pendingPickup (fields underAttackState)) \<and>
   pendingSuitChoice (fields underAttackState) \<and>
   (\<exists>s'. playCard noRandom underAttackState (card_id (mkCard Spades Jack)) = Inr s' \<and>
      discardPile (fields s') = [mkCard Clubs Two, mkCard Spades Jack] \<and>
      (\<exists>j<3. hand (players (fields s') ! j) = [mkCard Hearts Two, mkCard Hearts Five]) \<and>
      pendingPickup (fields s') = 7)"
proof -
  let ?h = "[mkCard Hearts Two, mkCard Spades Jack, mkCard Hearts Five]"
  have 1: "\<not> truthy (winnerId (fields underAttackState))"
    by (simp add: underAttackState_def tableOf_def truthy_def)
  have 2: "playerAt (players (fields underAttackState))
      (currentPlayerIndex (fields underAttackState)) = Some (seat ''player-0'' False ?h)"
    by (simp add: underAttackState_def tableOf_def playerAt_def)
  have 3: "findIndex (\<lambda>c. card_id c = card_id (mkCard Spades Jack))
      (hand (seat ''player-0'' False ?h)) = Some 1"
    by (simp add: seat_def mkCard_def suit_str_def rank_str_def)
  have v: "discardPile (fields underAttackState) = [mkCard Clubs Two]"
    "length (players (fields underAttackState)) = 3"
    "removeAt 1 (hand (seat ''player-0'' False ?h)) = [mkCard Hearts Two, mkCard Hearts Five]"
    "hand (seat ''player-0'' False ?h) ! 1 = mkCard Spades Jack"
    by (simp_all add: underAttackState_def tableOf_def seat_def removeAt_def)
  have i: "\<not> isValidMove (mkCard Spades Jack) (last (discardPile (fields underAttackState)))
       (pendingPickup (fields underAttackState))"
    "pendingSuitChoice (fields underAttackState)"
    by (simp_all add: underAttackState_def tableOf_def isValidMove_def mkCard_def)
  have e: "\<And>g t. pendingPickup (fst (applyEffect noRandom 0 (mkCard Spades Jack) g t))
      = pendingPickup g + 5"
    by (simp add: applyEffect_def Let_def isTwo_def isBlackJack_def mkCard_def)
  have p: "pendingPickup (fields underAttackState) = 2"
    "nat (currentPlayerIndex (fields underAttackState)) = 0"
    by (simp_all add: underAttackState_def tableOf_def)
  from playCard_no_legality_check [OF 1 2 3, of noRandom] obtain s' where
    s': "playCard noRandom underAttackState (card_id (mkCard Spades Jack)) = Inr s'"
      "discardPile (fields s') = [mkCard Clubs Two, mkCard Spades Jack]"
      "\<exists>j<3. hand (players (fields s') ! j) = [mkCard Hearts Two, mkCard Hearts Five]"
      "\<exists>t msg x. fields s' =
            (fst (applyEffect noRandom 0 (mkCard Spades Jack)
               ((fields underAttackState)
                  \<lparr>players := (players (fields underAttackState))
                      [0 := (seat ''player-0'' False ?h)
                         \<lparr>hand := [mkCard Hearts Two, mkCard Hearts Five]\<rparr>],
                   discardPile := [mkCard Clubs Two, mkCard Spades Jack]\<rparr>) t))
              \<lparr>lastAction := msg, currentPlayerIndex := x\<rparr>"
    unfolding v p by auto
  from s'(4) have "pendingPickup (fields s') = 7" by (auto simp: e p)
  with s' i show ?thesis by blast
qed

subsection \<open>Claim C10\<close>

text \<open>
  Claim C10, as stated: \<open>botChooseSuit\<close> picks the suit the bot holds most of, ties going to
  the suit that comes first in the declaration of the enum. This fails: the loop runs over
  the entries of \<open>suitCounts\<close>, which come in the order in which the suits first occur in the
  hand. With the hand Two of Spades, Three of Hearts the bot chooses Spades, where the
  declaration order gives Hearts.
\<close>

theorem botChooseSuit_declaration_order_counterexample:
  "pendingSuitChoice (fields tieState) \<and>
   playerAt (players (fields tieState)) (currentPlayerIndex (fields tieState))
      = Some (seat ''bot-1'' True [mkCard Spades Two, mkCard Hearts Three]) \<and>
   map_sum id (\<lambda>s. chosenSuit (fields s)) (botChooseSuit tieState) = Inr (Some Spades) \<and>
   declarationOrderBest [mkCard Spades Two, mkCard Hearts Three] = Hearts \<and>
   bestSuitOf [mkCard Spades Two, mkCard Hearts Three] \<noteq>
     declarationOrderBest [mkCard Spades Two, mkCard Hearts Three]"
  by (simp add: tieState_def tableOf_def playerAt_def seat_def botChooseSuit_def chooseSuit_def
      bestSuitOf_def countSuits_def declarationOrderBest_def suitCount_def all_suits_def
      mkCard_def Let_def advanceTurn_def withPrevious_def)

text \<open>
  Claim C10, amended: \<open>botChooseSuit\<close> resolves a pending suit choice of the current player
  with the suit that player holds most of; among the suits with that count it is the one
  whose first card comes earliest in the hand; it is Hearts when the hand is empty. The
  pending flag is cleared and the turn advances by one step.
\<close>

theorem botChooseSuit_first_seen:
  assumes pl: "playerAt (players (fields s)) (currentPlayerIndex (fields s)) = Some botPlayer"
    and pending: "pendingSuitChoice (fields s)"
    and b: "b = bestSuitOf (hand botPlayer)"
  shows "(\<exists>s'. botChooseSuit s = Inr s' \<and>
            chosenSuit (fields s') = Some b \<and>
            \<not> pendingSuitChoice (fields s') \<and>
            currentPlayerIndex (fields s') =
              (currentPlayerIndex (fields s) + direction (fields s) * 1)
                 mod int (length (players (fields s)))) \<and>
         (hand botPlayer = [] \<longrightarrow> b = Hearts) \<and>
         (hand botPlayer \<noteq> [] \<longrightarrow>
            0 < suitCount (hand botPlayer) b \<and>
            (\<forall>x. suitCount (hand botPlayer) x \<le> suitCount (hand botPlayer) b) \<and>
            (\<forall>x. x \<noteq> b \<and> suitCount (hand botPlayer) x = suitCount (hand botPlayer) b \<longrightarrow>
                 firstSeen (hand botPlayer) b < firstSeen (hand botPlayer) x))"
proof -
  from pl have ne: "players (fields s) \<noteq> []" by (auto simp: playerAt_Some)
  have "\<exists>s'. botChooseSuit s = Inr s' \<and>
            chosenSuit (fields s') = Some b \<and>
            \<not> pendingSuitChoice (fields s') \<and>
            currentPlayerIndex (fields s') =
              (currentPlayerIndex (fields s) + direction (fields s) * 1)
                 mod int (length (players (fields s)))"
    using pl pending ne
    by (simp add: botChooseSuit_def chooseSuit_def Let_def advanceTurn_Inr withPrevious_def b)
  moreover have "hand botPlayer = [] \<longrightarrow> b = Hearts"
    by (simp add: b bestSuitOf_empty)
  ultimately show ?thesis
    using bestSuitOf_first_max [of "hand botPlayer"] unfolding b by blast
qed

theorem botChooseSuit_first_seen_witness:
  "(\<exists>s'. botChooseSuit tieState = Inr s' \<and> chosenSuit (fields s') = Some Spades \<and>
      currentPlayerIndex (fields s') = 0) \<and>
   suitCount [mkCard Spades Two, mkCard Hearts Three] Hearts
     = suitCount [mkCard Spades Two, mkCard Hearts Three] Spades \<and>
   firstSeen [mkCard Spades Two, mkCard Hearts Three] Spades
     < firstSeen [mkCard Spades Two, mkCard Hearts Three] Hearts"
proof -
  let ?h = "[mkCard Spades Two, mkCard Hearts Three]"
  have 1: "playerAt (players (fields tieState)) (currentPlayerIndex (fields tieState))
      = Some (seat ''bot-1'' True ?h)"
    by (simp add: tieState_def tableOf_def playerAt_def)
  have 2: "pendingSuitChoice (fields tieState)"
    by (simp add: tieState_def tableOf_def)
  have 3: "Spades = bestSuitOf (hand (seat ''bot-1'' True ?h))"
    by (simp add: seat_def bestSuitOf_def countSuits_def mkCard_def)
  have v: "(currentPlayerIndex (fields tieState) + direction (fields tieState) * 1)
       mod int (length (players (fields tieState))) = 0"
    "hand (seat ''bot-1'' True ?h) = ?h"
    by (simp_all add: tieState_def tableOf_def seat_def)
  from botChooseSuit_first_seen [OF 1 2 3]
  show ?thesis unfolding v by (auto simp: suitCount_def firstSeen_def mkCard_def)
qed

end
